theory Spec2Isabelle
  imports Main "HOL-Library.Sublist"
begin

section \<open>JavaScript values\<close>

text \<open>
  Payloads, responses and errors have the TypeScript type \<open>unknown\<close>; at run time they are
  whatever the JSON body held. \<open>JError msg\<close> stands for \<open>new Error(msg)\<close>.
\<close>

datatype jsval =
    JUndefined
  | JNull
  | JBool bool
  | JNum int
  | JStr string
  | JArr "jsval list"
  | JObj "(string \<times> jsval) list"
  | JError string

text \<open>JavaScript truthiness, as \<open>if (v)\<close>, \<open>a && b\<close> and \<open>a || b\<close> test it.\<close>

fun truthy :: "jsval \<Rightarrow> bool" where
  "truthy JUndefined = False"
| "truthy JNull = False"
| "truthy (JBool b) = b"
| "truthy (JNum n) = (n \<noteq> 0)"
| "truthy (JStr s) = (s \<noteq> [])"
| "truthy (JArr xs) = True"
| "truthy (JObj kvs) = True"
| "truthy (JError m) = True"




text \<open>
  \<open>v.k\<close> for a non-nullish \<open>v\<close> and one of the keys the handlers read
  (\<open>requestId\<close>, \<open>response\<close>, \<open>error\<close>, \<open>responses\<close>): an object yields the stored value,
  anything else (and a missing key) yields \<open>undefined\<close>.
\<close>

fun getProp :: "jsval \<Rightarrow> string \<Rightarrow> jsval" where
  "getProp (JObj kvs) k = (case map_of kvs k of Some v \<Rightarrow> v | None \<Rightarrow> JUndefined)"
| "getProp v k = JUndefined"

section \<open>The bridge service (bridge-service.ts)\<close>

text \<open>
  The field \<open>id\<close> is called \<open>id_req\<close> here. \<open>promise\<close> stands for the pair of closures
  \<open>resolve\<close>/\<open>reject\<close> of the promise that \<open>sendRequest\<close> creates, \<open>timeoutId\<close> for the
  handle \<open>setTimeout\<close> returns; both are indices into the stores below.
\<close>

record PendingRequest =
  id_req :: string
  endpoint :: string
  data :: jsval
  timestamp :: int
  promise :: nat
  timeoutId :: nat

text \<open>
  An entry of a batch. TypeScript's types are erased at run time and the entries come
  from the JSON body unchecked, so each field holds whatever value was sent
  (\<open>undefined\<close> when the key is missing).
\<close>

record BatchResponse =
  requestId :: jsval
  response :: jsval
  error :: jsval

datatype outcome = Pending | Resolved jsval | Rejected jsval

text \<open>
  A timer scheduled by \<open>setTimeout\<close>: its callback closes over \<open>requestId\<close> and \<open>reject\<close>.
  \<open>armed\<close> is false once it was cleared or has fired.
\<close>

record timer =
  t_requestId :: string
  t_reject :: nat
  fireAt :: int
  armed :: bool

text \<open>
  The two fields of the class, and the part of the run time they point into: the promises
  created so far and the timers scheduled so far. The \<open>Map\<close> is kept in insertion order,
  as JavaScript iterates it.
\<close>

record BridgeService =
  pendingRequests :: "(string \<times> PendingRequest) list"
  requestQueue :: "string list"
  promises :: "outcome list"
  timers :: "timer list"

definition requestTimeout :: int where
  "requestTimeout = 30000"

definition newBridgeService :: BridgeService where
  "newBridgeService = \<lparr>pendingRequests = [], requestQueue = [], promises = [], timers = []\<rparr>"

subsection \<open>Map, array, promise and timer primitives\<close>

text \<open>A key that is not a string equals no key of the map.\<close>

fun map_get :: "(string \<times> 'v) list \<Rightarrow> jsval \<Rightarrow> 'v option" where
  "map_get m (JStr k) = map_of m k"
| "map_get m v = None"

definition map_has :: "(string \<times> 'v) list \<Rightarrow> jsval \<Rightarrow> bool" where
  "map_has m k = (map_get m k \<noteq> None)"

text \<open>\<open>Map.set\<close>: an existing key keeps its place, a new key goes last.\<close>

fun map_set :: "(string \<times> 'v) list \<Rightarrow> string \<Rightarrow> 'v \<Rightarrow> (string \<times> 'v) list" where
  "map_set [] k v = [(k, v)]"
| "map_set ((k', v') # m) k v = (if k' = k then (k, v) # m else (k', v') # map_set m k v)"

fun map_delete :: "(string \<times> 'v) list \<Rightarrow> jsval \<Rightarrow> (string \<times> 'v) list" where
  "map_delete m (JStr k) = filter (\<lambda>e. fst e \<noteq> k) m"
| "map_delete m v = m"

text \<open>\<open>Array.indexOf\<close> (\<open>-1\<close> when absent) and \<open>splice(index, 1)\<close>.\<close>

fun indexOf_str :: "string list \<Rightarrow> string \<Rightarrow> int" where
  "indexOf_str [] k = -1"
| "indexOf_str (x # xs) k =
     (if x = k then 0 else (let i = indexOf_str xs k in if i = -1 then -1 else i + 1))"

fun indexOf :: "string list \<Rightarrow> jsval \<Rightarrow> int" where
  "indexOf xs (JStr k) = indexOf_str xs k"
| "indexOf xs v = -1"

definition splice1 :: "nat \<Rightarrow> 'a list \<Rightarrow> 'a list" where
  "splice1 i xs = take i xs @ drop (Suc i) xs"

text \<open>Settling a promise: only the first call of \<open>resolve\<close> or \<open>reject\<close> has an effect.\<close>

definition settle :: "nat \<Rightarrow> outcome \<Rightarrow> BridgeService \<Rightarrow> BridgeService" where
  "settle p oc s =
     (if p < length (promises s) \<and> promises s ! p = Pending
      then s\<lparr>promises := (promises s)[p := oc]\<rparr> else s)"

definition clearTimeout :: "nat \<Rightarrow> BridgeService \<Rightarrow> BridgeService" where
  "clearTimeout t s =
     (if t < length (timers s)
      then s\<lparr>timers := (timers s)[t := (timers s ! t)\<lparr>armed := False\<rparr>]\<rparr> else s)"

definition pendingRequests_delete :: "jsval \<Rightarrow> BridgeService \<Rightarrow> BridgeService" where
  "pendingRequests_delete k s = s\<lparr>pendingRequests := map_delete (pendingRequests s) k\<rparr>"

subsection \<open>The methods\<close>

definition removeFromQueue :: "jsval \<Rightarrow> BridgeService \<Rightarrow> BridgeService" where
  "removeFromQueue k s =
     (let index = indexOf (requestQueue s) k
      in if index > -1 then s\<lparr>requestQueue := splice1 (nat index) (requestQueue s)\<rparr> else s)"

text \<open>
  \<open>sendRequest\<close>, with the identifier \<open>uuidv4()\<close> returned and the reading of \<open>Date.now()\<close>
  as arguments. It returns the new promise.
\<close>

definition sendRequest ::
  "string \<Rightarrow> string \<Rightarrow> jsval \<Rightarrow> int \<Rightarrow> BridgeService \<Rightarrow> nat \<times> BridgeService" where
  "sendRequest k ep d now s =
     (let p = length (promises s);
          t = length (timers s);
          request = \<lparr>id_req = k, endpoint = ep, data = d, timestamp = now,
                     promise = p, timeoutId = t\<rparr>
      in (p, s\<lparr>promises := promises s @ [Pending],
               timers := timers s @
                 [\<lparr>t_requestId = k, t_reject = p, fireAt = now + requestTimeout, armed = True\<rparr>],
               pendingRequests := map_set (pendingRequests s) k request,
               requestQueue := requestQueue s @ [k]\<rparr>))"

text \<open>The callback given to \<open>setTimeout\<close> in \<open>sendRequest\<close>.\<close>

definition timeoutHandler :: "string \<Rightarrow> nat \<Rightarrow> BridgeService \<Rightarrow> BridgeService" where
  "timeoutHandler k rej s =
     (if map_has (pendingRequests s) (JStr k)
      then settle rej (Rejected (JError ''Request timeout''))
             (pendingRequests_delete (JStr k) (removeFromQueue (JStr k) s))
      else s)"

text \<open>
  The event loop, at time \<open>now\<close>, runs the callback of timer \<open>t\<close>: once, not before the
  time it was set for, and not if it was cleared.
\<close>

definition fireTimer :: "int \<Rightarrow> nat \<Rightarrow> BridgeService \<Rightarrow> BridgeService" where
  "fireTimer now t s =
     (if t < length (timers s) \<and> armed (timers s ! t) \<and> fireAt (timers s ! t) \<le> now
      then timeoutHandler (t_requestId (timers s ! t)) (t_reject (timers s ! t))
             (s\<lparr>timers := (timers s)[t := (timers s ! t)\<lparr>armed := False\<rparr>]\<rparr>)
      else s)"

text \<open>
  The timers phase of the event loop at time \<open>now\<close>: every timer that is due fires, in the
  order of creation (all timers of the bridge have the same delay).
\<close>

definition fireDueTimers :: "int \<Rightarrow> BridgeService \<Rightarrow> BridgeService" where
  "fireDueTimers now s = fold (fireTimer now) [0..<length (timers s)] s"

text \<open>What a poll hands out for a request: \<open>requestId\<close>, \<open>request.endpoint\<close>, \<open>request.data\<close>.\<close>

type_synonym polled = "string \<times> string \<times> jsval"

definition polled_of :: "PendingRequest \<Rightarrow> polled" where
  "polled_of request = (id_req request, endpoint request, data request)"

text \<open>The \<open>while\<close> loop of \<open>getPendingRequest\<close>: the second component is the queue it leaves.\<close>

fun getPendingRequest_loop ::
  "(string \<times> PendingRequest) list \<Rightarrow> string list \<Rightarrow> polled option \<times> string list" where
  "getPendingRequest_loop m [] = (None, [])"
| "getPendingRequest_loop m (k # q) =
     (case map_get m (JStr k) of
        Some request \<Rightarrow> (Some (polled_of request), k # q)
      | None \<Rightarrow> getPendingRequest_loop m q)"

definition getPendingRequest :: "BridgeService \<Rightarrow> polled option \<times> BridgeService" where
  "getPendingRequest s =
     (let (r, q) = getPendingRequest_loop (pendingRequests s) (requestQueue s)
      in (r, s\<lparr>requestQueue := q\<rparr>))"

text \<open>
  The \<open>for\<close> loop of \<open>getPendingRequests\<close> from index \<open>i\<close> on, over the rest of the queue:
  it yields \<open>results\<close> and \<open>toRemove\<close>.
\<close>

fun getPendingRequests_scan ::
  "(string \<times> PendingRequest) list \<Rightarrow> int \<Rightarrow> string list \<Rightarrow> nat \<Rightarrow> polled list \<Rightarrow> nat list
     \<Rightarrow> polled list \<times> nat list" where
  "getPendingRequests_scan m maxCount [] i results toRemove = (results, toRemove)"
| "getPendingRequests_scan m maxCount (k # rest) i results toRemove =
     (if int (length results) < maxCount
      then (case map_get m (JStr k) of
              Some request \<Rightarrow>
                getPendingRequests_scan m maxCount rest (Suc i) (results @ [polled_of request]) toRemove
            | None \<Rightarrow>
                getPendingRequests_scan m maxCount rest (Suc i) results (toRemove @ [i]))
      else (results, toRemove))"

text \<open>The second loop: \<open>splice(toRemove[i], 1)\<close> for \<open>i\<close> from the last index down.\<close>

definition spliceAll :: "nat list \<Rightarrow> 'a list \<Rightarrow> 'a list" where
  "spliceAll toRemove q = fold splice1 (rev toRemove) q"

definition getPendingRequests :: "int \<Rightarrow> BridgeService \<Rightarrow> polled list \<times> BridgeService" where
  "getPendingRequests maxCount s =
     (let (results, toRemove) =
            getPendingRequests_scan (pendingRequests s) maxCount (requestQueue s) 0 [] []
      in (results, s\<lparr>requestQueue := spliceAll toRemove (requestQueue s)\<rparr>))"

definition hasPendingRequest :: "jsval \<Rightarrow> BridgeService \<Rightarrow> bool" where
  "hasPendingRequest k s = map_has (pendingRequests s) k"

definition getPendingCount :: "BridgeService \<Rightarrow> nat" where
  "getPendingCount s = length (pendingRequests s)"

definition resolveRequest :: "jsval \<Rightarrow> jsval \<Rightarrow> BridgeService \<Rightarrow> bool \<times> BridgeService" where
  "resolveRequest k v s =
     (case map_get (pendingRequests s) k of
        Some request \<Rightarrow>
          (True, settle (promise request) (Resolved v)
                   (pendingRequests_delete k
                     (removeFromQueue k (clearTimeout (timeoutId request) s))))
      | None \<Rightarrow> (False, s))"

definition rejectRequest :: "jsval \<Rightarrow> jsval \<Rightarrow> BridgeService \<Rightarrow> bool \<times> BridgeService" where
  "rejectRequest k e s =
     (case map_get (pendingRequests s) k of
        Some request \<Rightarrow>
          (True, settle (promise request) (Rejected e)
                   (pendingRequests_delete k
                     (removeFromQueue k (clearTimeout (timeoutId request) s))))
      | None \<Rightarrow> (False, s))"

text \<open>The loop of \<open>resolveRequests\<close>, with the counters \<open>resolved\<close> and \<open>notFound\<close>.\<close>

fun resolveRequests_loop ::
  "BatchResponse list \<Rightarrow> nat \<Rightarrow> nat \<Rightarrow> BridgeService \<Rightarrow> (nat \<times> nat) \<times> BridgeService" where
  "resolveRequests_loop [] resolved notFound s = ((resolved, notFound), s)"
| "resolveRequests_loop (resp # rest) resolved notFound s =
     (if truthy (error resp)
      then (case rejectRequest (requestId resp) (error resp) s of
              (True, s') \<Rightarrow> resolveRequests_loop rest (resolved + 1) notFound s'
            | (False, s') \<Rightarrow> resolveRequests_loop rest resolved (notFound + 1) s')
      else (case resolveRequest (requestId resp) (response resp) s of
              (True, s') \<Rightarrow> resolveRequests_loop rest (resolved + 1) notFound s'
            | (False, s') \<Rightarrow> resolveRequests_loop rest resolved (notFound + 1) s'))"

definition resolveRequests :: "BatchResponse list \<Rightarrow> BridgeService \<Rightarrow> (nat \<times> nat) \<times> BridgeService" where
  "resolveRequests responses s = resolveRequests_loop responses 0 0 s"

text \<open>
  \<open>cleanupOldRequests\<close> iterates over the entries of the map; an entry is deleted only while
  it is the current one, so the iteration visits the entries the map held at the start.
\<close>

fun cleanupOldRequests_loop ::
  "int \<Rightarrow> (string \<times> PendingRequest) list \<Rightarrow> BridgeService \<Rightarrow> BridgeService" where
  "cleanupOldRequests_loop now [] s = s"
| "cleanupOldRequests_loop now ((k, request) # rest) s =
     cleanupOldRequests_loop now rest
       (if now - timestamp request > requestTimeout
        then settle (promise request) (Rejected (JError ''Request timeout''))
               (pendingRequests_delete (JStr k)
                 (removeFromQueue (JStr k) (clearTimeout (timeoutId request) s)))
        else s)"

definition cleanupOldRequests :: "int \<Rightarrow> BridgeService \<Rightarrow> BridgeService" where
  "cleanupOldRequests now s = cleanupOldRequests_loop now (pendingRequests s) s"

fun clearAllPendingRequests_loop ::
  "(string \<times> PendingRequest) list \<Rightarrow> BridgeService \<Rightarrow> BridgeService" where
  "clearAllPendingRequests_loop [] s = s"
| "clearAllPendingRequests_loop ((k, request) # rest) s =
     clearAllPendingRequests_loop rest
       (settle (promise request) (Rejected (JError ''Connection closed''))
         (clearTimeout (timeoutId request) s))"

definition clearAllPendingRequests :: "BridgeService \<Rightarrow> BridgeService" where
  "clearAllPendingRequests s =
     (clearAllPendingRequests_loop (pendingRequests s) s)\<lparr>pendingRequests := [], requestQueue := []\<rparr>"


subsection \<open>Operations on the bridge, as the event loop interleaves them\<close>

datatype op =
    Send string string jsval int
  | GetOne
  | GetMany int
  | ResolveOne jsval jsval
  | RejectOne jsval jsval
  | ResolveMany "BatchResponse list"
  | TimerFires int nat
  | Cleanup int
  | ClearAll

fun step :: "op \<Rightarrow> BridgeService \<Rightarrow> BridgeService" where
  "step (Send k ep d now) s = snd (sendRequest k ep d now s)"
| "step GetOne s = snd (getPendingRequest s)"
| "step (GetMany maxCount) s = snd (getPendingRequests maxCount s)"
| "step (ResolveOne k v) s = snd (resolveRequest k v s)"
| "step (RejectOne k e) s = snd (rejectRequest k e s)"
| "step (ResolveMany responses) s = snd (resolveRequests responses s)"
| "step (TimerFires now t) s = fireTimer now t s"
| "step (Cleanup now) s = cleanupOldRequests now s"
| "step ClearAll s = clearAllPendingRequests s"

fun run :: "op list \<Rightarrow> BridgeService \<Rightarrow> BridgeService" where
  "run [] s = s"
| "run (a # ops) s = run ops (step a s)"

text \<open>\<open>uuidv4()\<close> returns an identifier that no pending request bears.\<close>

fun op_fresh :: "op \<Rightarrow> BridgeService \<Rightarrow> bool" where
  "op_fresh (Send k ep d now) s = (\<not> hasPendingRequest (JStr k) s)"
| "op_fresh a s = True"

fun fresh_run :: "op list \<Rightarrow> BridgeService \<Rightarrow> bool" where
  "fresh_run [] s = True"
| "fresh_run (a # ops) s = (op_fresh a s \<and> fresh_run ops (step a s))"

fun sends :: "op \<Rightarrow> string \<Rightarrow> bool" where
  "sends (Send k' ep d now) k = (k' = k)"
| "sends a k = False"

text \<open>Registering a list of requests \<open>(id, endpoint, data, now)\<close>, in order.\<close>

fun sendAll :: "(string \<times> string \<times> jsval \<times> int) list \<Rightarrow> BridgeService \<Rightarrow> BridgeService" where
  "sendAll [] s = s"
| "sendAll ((k, ep, d, now) # reqs) s = sendAll reqs (snd (sendRequest k ep d now s))"

subsection \<open>Invariants\<close>

text \<open>The queue mirrors the map: the same identifiers, each once, in the same order.\<close>

definition queue_inv :: "BridgeService \<Rightarrow> bool" where
  "queue_inv s =
     (requestQueue s = map fst (pendingRequests s) \<and> distinct (map fst (pendingRequests s)))"

text \<open>
  A pending entry is stored under its own identifier, its promise is still pending, and its
  timer is armed for \<open>timestamp + requestTimeout\<close> with the callback of that request.
\<close>

definition entry_ok :: "BridgeService \<Rightarrow> string \<times> PendingRequest \<Rightarrow> bool" where
  "entry_ok s e =
     (id_req (snd e) = fst e \<and>
      promise (snd e) < length (promises s) \<and>
      promises s ! promise (snd e) = Pending \<and>
      timeoutId (snd e) < length (timers s) \<and>
      timers s ! timeoutId (snd e) =
        \<lparr>t_requestId = fst e, t_reject = promise (snd e),
         fireAt = timestamp (snd e) + requestTimeout, armed = True\<rparr>)"

text \<open>Every timer that is still armed belongs to a pending entry.\<close>

definition timers_ok :: "BridgeService \<Rightarrow> bool" where
  "timers_ok s =
     list_all (\<lambda>t. armed (timers s ! t) \<longrightarrow>
                   t \<in> set (map (\<lambda>e. timeoutId (snd e)) (pendingRequests s)))
       [0..<length (timers s)]"

text \<open>
  The state of the bridge and of the promises and timers it created fit together. A new
  bridge is consistent, and every operation keeps it so as long as \<open>uuidv4()\<close> returns
  identifiers that are not pending.
\<close>

definition consistent :: "BridgeService \<Rightarrow> bool" where
  "consistent s =
     (queue_inv s \<and> list_all (entry_ok s) (pendingRequests s) \<and>
      distinct (map (\<lambda>e. promise (snd e)) (pendingRequests s)) \<and> timers_ok s)"

text \<open>The four statements every settlement path runs on the entry \<open>k \<mapsto> r\<close>.\<close>

definition dropEntry :: "string \<Rightarrow> PendingRequest \<Rightarrow> outcome \<Rightarrow> BridgeService \<Rightarrow> BridgeService" where
  "dropEntry k r oc s =
     settle (promise r) oc
       (pendingRequests_delete (JStr k) (removeFromQueue (JStr k) (clearTimeout (timeoutId r) s)))"

definition live :: "(string \<times> 'v) list \<Rightarrow> string \<Rightarrow> bool" where
  "live m k = (map_of m k \<noteq> None)"

text \<open>
  \<open>shrinks s s'\<close>: from \<open>s\<close> to \<open>s'\<close> no entry was added to the map, the queue lost
  identifiers but kept the order of the others, no promise was created, and no settled
  promise changed.
\<close>

definition shrinks :: "BridgeService \<Rightarrow> BridgeService \<Rightarrow> bool" where
  "shrinks s s' =
     (set (pendingRequests s') \<subseteq> set (pendingRequests s) \<and>
      subseq (requestQueue s') (requestQueue s) \<and>
      length (promises s') = length (promises s) \<and>
      (\<forall>p < length (promises s). promises s ! p \<noteq> Pending \<longrightarrow> promises s' ! p = promises s ! p))"

text \<open>The identifiers that a list of operations registers, in order.\<close>

fun sent_ids :: "op list \<Rightarrow> string list" where
  "sent_ids [] = []"
| "sent_ids (Send k ep d now # ops) = k # sent_ids ops"
| "sent_ids (a # ops) = sent_ids ops"

section \<open>The HTTP server (http-server.ts)\<close>

record ConnectionState =
  pluginConnected :: bool
  mcpServerActive :: bool
  lastMCPActivity :: int
  mcpServerStartTime :: int
  lastPluginActivity :: int

definition initialConnectionState :: ConnectionState where
  "initialConnectionState =
     \<lparr>pluginConnected = False, mcpServerActive = False, lastMCPActivity = 0,
      mcpServerStartTime = 0, lastPluginActivity = 0\<rparr>"

definition setMCPServerActive :: "bool \<Rightarrow> int \<Rightarrow> ConnectionState \<Rightarrow> ConnectionState" where
  "setMCPServerActive active now c =
     (if active
      then c\<lparr>mcpServerActive := active, mcpServerStartTime := now, lastMCPActivity := now\<rparr>
      else c\<lparr>mcpServerActive := active, mcpServerStartTime := 0, lastMCPActivity := 0\<rparr>)"

definition trackMCPActivity :: "int \<Rightarrow> ConnectionState \<Rightarrow> ConnectionState" where
  "trackMCPActivity now c = (if mcpServerActive c then c\<lparr>lastMCPActivity := now\<rparr> else c)"

text \<open>The two files define \<open>isMCPServerActive\<close> differently.\<close>

definition isMCPServerActive_v1 :: "int \<Rightarrow> ConnectionState \<Rightarrow> bool" where
  "isMCPServerActive_v1 now c = (mcpServerActive c \<and> now - lastMCPActivity c < 15000)"

definition isMCPServerActive_v2 :: "ConnectionState \<Rightarrow> bool" where
  "isMCPServerActive_v2 c = mcpServerActive c"

definition isPluginConnected :: "int \<Rightarrow> ConnectionState \<Rightarrow> bool" where
  "isPluginConnected now c = (pluginConnected c \<and> now - lastPluginActivity c < 10000)"

text \<open>
  What a handler answers: a status with a JSON body, or, when the handler throws, the
  500 of Express's error handler.
\<close>

datatype reply = Reply nat jsval | ServerError

definition post_disconnect ::
  "ConnectionState \<Rightarrow> BridgeService \<Rightarrow> reply \<times> ConnectionState \<times> BridgeService" where
  "post_disconnect c s =
     (Reply 200 (JObj [(''success'', JBool True)]),
      c\<lparr>pluginConnected := False\<rparr>,
      clearAllPendingRequests s)"

definition polled_json :: "polled \<Rightarrow> jsval" where
  "polled_json r =
     (case r of (k, ep, d) \<Rightarrow>
        JObj [(''requestId'', JStr k), (''request'', JObj [(''endpoint'', JStr ep), (''data'', d)])])"

subsection \<open>Long polling\<close>

text \<open>
  One \<open>await\<close> of the 50 ms timer: the timer fires no earlier than asked, \<open>late\<close> milliseconds
  after it, and meanwhile the event loop runs other operations on the bridge.
\<close>

type_synonym sleep = "nat \<times> op list"

definition pollInterval :: int where
  "pollInterval = 50"

text \<open>
  The loop of \<open>waitForRequests\<close>; \<open>now\<close> is what \<open>Date.now()\<close> reads when the condition is
  tested. When the list of sleeps is used up, the remaining sleeps are punctual and quiet.
\<close>

function waitForRequests_loop ::
  "int \<Rightarrow> int \<Rightarrow> int \<Rightarrow> int \<Rightarrow> sleep list \<Rightarrow> BridgeService \<Rightarrow> polled list \<times> BridgeService" where
  "waitForRequests_loop startTime maxWaitMs maxBatchSize now env s =
     (if now - startTime < maxWaitMs
      then (case getPendingRequests maxBatchSize s of
              (requests, s') \<Rightarrow>
                if length requests > 0 then (requests, s')
                else (case env of
                        [] \<Rightarrow>
                          waitForRequests_loop startTime maxWaitMs maxBatchSize
                            (now + pollInterval) [] s'
                      | (late, ops) # env' \<Rightarrow>
                          waitForRequests_loop startTime maxWaitMs maxBatchSize
                            (now + pollInterval + int late) env' (run ops s')))
      else ([], s))"
  by pat_completeness auto
termination
  by (relation "measure (\<lambda>(startTime, maxWaitMs, maxBatchSize, now, env, s).
                  nat (startTime + maxWaitMs - now))")
     (auto simp: pollInterval_def)

definition waitForRequests ::
  "int \<Rightarrow> int \<Rightarrow> int \<Rightarrow> sleep list \<Rightarrow> BridgeService \<Rightarrow> polled list \<times> BridgeService" where
  "waitForRequests maxWaitMs maxBatchSize now env s =
     waitForRequests_loop now maxWaitMs maxBatchSize now env s"

text \<open>
  The query of \<open>GET /poll\<close>: \<open>longPoll\<close> as received, and what \<open>parseInt\<close> made of \<open>maxWait\<close>
  and \<open>maxBatch\<close> (\<open>None\<close> for \<open>NaN\<close>).
\<close>

record pollQuery =
  q_longPoll :: jsval
  q_maxWait :: "int option"
  q_maxBatch :: "int option"

text \<open>\<open>parseInt(x) || dflt\<close>: \<open>NaN\<close> and \<open>0\<close> are falsy.\<close>

definition orDefault :: "int option \<Rightarrow> int \<Rightarrow> int" where
  "orDefault parsed dflt = (case parsed of None \<Rightarrow> dflt | Some n \<Rightarrow> if n = 0 then dflt else n)"

definition pollMaxWait :: "pollQuery \<Rightarrow> int" where
  "pollMaxWait q = min (orDefault (q_maxWait q) 5000) 30000"

definition pollMaxBatch :: "pollQuery \<Rightarrow> int" where
  "pollMaxBatch q = min (orDefault (q_maxBatch q) 10) 50"

subsection \<open>\<open>GET /poll\<close>\<close>

definition get_poll_v1 ::
  "int \<Rightarrow> ConnectionState \<Rightarrow> BridgeService \<Rightarrow> reply \<times> ConnectionState \<times> BridgeService" where
  "get_poll_v1 now c s =
     (let c1 = (if \<not> pluginConnected c then c\<lparr>pluginConnected := True\<rparr> else c);
          c2 = c1\<lparr>lastPluginActivity := now\<rparr>
      in if \<not> isMCPServerActive_v1 now c2
         then (Reply 503 (JObj [(''error'', JStr ''MCP server not connected''),
                                (''pluginConnected'', JBool True),
                                (''mcpConnected'', JBool False),
                                (''request'', JNull)]),
               c2, s)
         else (let c3 = trackMCPActivity now c2
               in case getPendingRequest s of
                    (Some (k, ep, d), s') \<Rightarrow>
                      (Reply 200 (JObj [(''request'', JObj [(''endpoint'', JStr ep), (''data'', d)]),
                                        (''requestId'', JStr k),
                                        (''mcpConnected'', JBool True),
                                        (''pluginConnected'', JBool True)]),
                       c3, s')
                  | (None, s') \<Rightarrow>
                      (Reply 200 (JObj [(''request'', JNull),
                                        (''mcpConnected'', JBool True),
                                        (''pluginConnected'', JBool True)]),
                       c3, s')))"

definition get_poll_v2 ::
  "int \<Rightarrow> pollQuery \<Rightarrow> sleep list \<Rightarrow> ConnectionState \<Rightarrow> BridgeService
     \<Rightarrow> reply \<times> ConnectionState \<times> BridgeService" where
  "get_poll_v2 now q env c s =
     (let c1 = (if \<not> pluginConnected c then c\<lparr>pluginConnected := True\<rparr> else c);
          c2 = c1\<lparr>lastPluginActivity := now\<rparr>;
          c3 = (if mcpServerActive c2 then c2\<lparr>lastMCPActivity := now\<rparr> else c2)
      in if \<not> isMCPServerActive_v2 c3
         then (Reply 503 (JObj [(''error'', JStr ''MCP server not connected''),
                                (''pluginConnected'', JBool True),
                                (''mcpConnected'', JBool False),
                                (''requests'', JArr [])]),
               c3, s)
         else (let c4 = trackMCPActivity now c3;
                   longPoll = (q_longPoll q \<noteq> JStr ''false'');
                   maxWait = pollMaxWait q;
                   maxBatch = pollMaxBatch q;
                   (requests, s') = (if longPoll then waitForRequests maxWait maxBatch now env s
                                     else getPendingRequests maxBatch s)
               in if length requests > 0
                  then (Reply 200 (JObj [(''requests'', JArr (map polled_json requests)),
                                         (''mcpConnected'', JBool True),
                                         (''pluginConnected'', JBool True),
                                         (''batchSize'', JNum (int (length requests)))]),
                        c4, s')
                  else (Reply 200 (JObj [(''requests'', JArr []),
                                         (''mcpConnected'', JBool True),
                                         (''pluginConnected'', JBool True),
                                         (''batchSize'', JNum 0)]),
                        c4, s')))"

subsection \<open>\<open>POST /response\<close>\<close>






section \<open>Auxiliary notions and examples\<close>

text \<open>The test of \<open>cleanupOldRequests\<close> on an entry of the map.\<close>

definition expired :: "int \<Rightarrow> string \<times> PendingRequest \<Rightarrow> bool" where
  "expired now e = (now - timestamp (snd e) > requestTimeout)"

text \<open>One iteration of the loop of \<open>resolveRequests\<close>: the call it makes.\<close>

definition settleEntry :: "BatchResponse \<Rightarrow> BridgeService \<Rightarrow> bool \<times> BridgeService" where
  "settleEntry resp s =
     (if truthy (error resp) then rejectRequest (requestId resp) (error resp) s
      else resolveRequest (requestId resp) (response resp) s)"

definition ops_example :: "op list" where
  "ops_example =
     [Send ''a'' ''/api/x'' (JNum 1) 0, Send ''b'' ''/api/x'' (JNum 2) 10,
      Send ''c'' ''/api/y'' JNull 20, ResolveOne (JStr ''b'') (JBool True), GetOne,
      TimerFires 30000 0, Cleanup 30025, GetMany 10, Send ''d'' ''/api/z'' JNull 30030,
      ResolveMany [\<lparr>requestId = JStr ''zz'', response = JNull, error = JStr ''boom''\<rparr>]]"

definition reqs_example :: "(string \<times> string \<times> jsval \<times> int) list" where
  "reqs_example =
     [(''t1'', ''/api/test1'', JNum 1, 0), (''t2'', ''/api/test2'', JNum 2, 10),
      (''t3'', ''/api/test3'', JNum 3, 20)]"


text \<open>Three requests registered 10 ms apart on a new bridge.\<close>

definition bridge_example :: BridgeService where
  "bridge_example = sendAll reqs_example newBridgeService"

definition request_t2 :: PendingRequest where
  "request_t2 = \<lparr>id_req = ''t2'', endpoint = ''/api/test2'', data = JNum 2, timestamp = 10,
                  promise = 1, timeoutId = 1\<rparr>"


text \<open>Later traffic on the bridge that registers other identifiers only.\<close>

definition ops_later :: "op list" where
  "ops_later =
     [Send ''t4'' ''/api/test4'' JNull 40, GetMany 10, TimerFires 30010 1, Cleanup 50000,
      ResolveOne (JStr ''t1'') JNull, ClearAll]"


definition request_t1 :: PendingRequest where
  "request_t1 = \<lparr>id_req = ''t1'', endpoint = ''/api/test1'', data = JNum 1, timestamp = 0,
                  promise = 0, timeoutId = 0\<rparr>"


text \<open>A batch of three entries, the second with an identifier that is not pending.\<close>

definition batch_ok :: BatchResponse where
  "batch_ok = \<lparr>requestId = JStr ''t1'', response = JObj [(''ok'', JNum 1)], error = JUndefined\<rparr>"

definition batch_invalid :: BatchResponse where
  "batch_invalid = \<lparr>requestId = JStr ''invalid-id'', response = JUndefined, error = JUndefined\<rparr>"

text \<open>An entry for a pending request whose \<open>error\<close> is the empty string.\<close>

definition batch_empty_error :: BatchResponse where
  "batch_empty_error = \<lparr>requestId = JStr ''t1'', response = JUndefined, error = JStr []\<rparr>"

definition batch_error :: BatchResponse where
  "batch_error = \<lparr>requestId = JStr ''t2'', response = JUndefined, error = JStr ''Test error''\<rparr>"


text \<open>
  The reading of the clock and the state of the bridge when \<open>waitForRequests\<close> tests its
  loop condition for the \<open>k\<close>-th time (counting from 0), given that every earlier test found
  the wait not elapsed and the batch empty: each round asks the bridge for a batch and
  sleeps once.
\<close>

fun nth_check :: "int \<Rightarrow> sleep list \<Rightarrow> nat \<Rightarrow> int \<Rightarrow> BridgeService \<Rightarrow> int \<times> BridgeService" where
  "nth_check maxBatchSize env 0 now s = (now, s)"
| "nth_check maxBatchSize [] (Suc k) now s =
     nth_check maxBatchSize [] k (now + 50) (snd (getPendingRequests maxBatchSize s))"
| "nth_check maxBatchSize ((late, ops) # env) (Suc k) now s =
     nth_check maxBatchSize env k (now + 50 + int late)
       (run ops (snd (getPendingRequests maxBatchSize s)))"

text \<open>The body of the 200 answer of \<open>GET /poll\<close> for a batch.\<close>

definition poll_body :: "polled list \<Rightarrow> jsval" where
  "poll_body requests =
     JObj [(''requests'', JArr (map polled_json requests)),
           (''mcpConnected'', JBool True),
           (''pluginConnected'', JBool True),
           (''batchSize'', JNum (int (length requests)))]"

text \<open>A long poll during which a request arrives in the second sleep, 5 ms late.\<close>

definition env_example :: "sleep list" where
  "env_example = [(0, []), (5, [Send ''w1'' ''/api/late'' JNull 60])]"


text \<open>A poll with \<open>maxWait=120\<close> and \<open>maxBatch=10\<close>, and a connection with an active dispatcher.\<close>

definition query_example :: pollQuery where
  "query_example = \<lparr>q_longPoll = JUndefined, q_maxWait = Some 120, q_maxBatch = Some 10\<rparr>"

definition conn_active :: ConnectionState where
  "conn_active = setMCPServerActive True 0 initialConnectionState"

section \<open>Properties\<close>


subsection \<open>Queue and map primitives\<close>

lemma indexOf_str_ge: "indexOf_str xs k \<ge> -1"
  by (induction xs) (auto simp: Let_def)

lemma indexOf_str_absent: "(indexOf_str xs k = -1) = (k \<notin> set xs)"
proof (induction xs)
  case Nil show ?case by simp
next
  case (Cons x xs)
  have "indexOf_str xs k \<ge> -1" by (rule indexOf_str_ge)
  with Cons show ?case by (auto simp: Let_def)
qed

lemma splice1_indexOf_str: "k \<in> set xs \<Longrightarrow> splice1 (nat (indexOf_str xs k)) xs = remove1 k xs"
proof (induction xs)
  case Nil then show ?case by simp
next
  case (Cons x xs)
  show ?case
  proof (cases "x = k")
    case True then show ?thesis by (simp add: splice1_def)
  next
    case False
    with Cons.prems have kin: "k \<in> set xs" by simp
    have ge: "indexOf_str xs k \<ge> 0"
      using indexOf_str_ge[of xs k] indexOf_str_absent[of xs k] kin by linarith
    have "nat (indexOf_str xs k + 1) = Suc (nat (indexOf_str xs k))" using ge by simp
    with False Cons.IH[OF kin] kin show ?thesis
      by (simp add: splice1_def Let_def indexOf_str_absent)
  qed
qed

lemma requestQueue_removeFromQueue:
  "requestQueue (removeFromQueue (JStr k) s) = remove1 k (requestQueue s)"
proof (cases "k \<in> set (requestQueue s)")
  case True
  then have "indexOf_str (requestQueue s) k > -1"
    using indexOf_str_ge[of "requestQueue s" k] indexOf_str_absent[of "requestQueue s" k] by linarith
  with True show ?thesis by (simp add: removeFromQueue_def Let_def splice1_indexOf_str)
next
  case False
  then have "indexOf_str (requestQueue s) k = -1" by (simp add: indexOf_str_absent)
  with False show ?thesis by (simp add: removeFromQueue_def Let_def remove1_idem)
qed

lemma removeFromQueue_other [simp]:
  "pendingRequests (removeFromQueue k s) = pendingRequests s"
  "promises (removeFromQueue k s) = promises s"
  "timers (removeFromQueue k s) = timers s"
  by (simp_all add: removeFromQueue_def Let_def)

lemma removeFromQueue_nonstr: "\<forall>x. k \<noteq> JStr x \<Longrightarrow> removeFromQueue k s = s"
  by (cases k) (simp_all add: removeFromQueue_def)

lemma settle_other [simp]:
  "pendingRequests (settle p oc s) = pendingRequests s"
  "requestQueue (settle p oc s) = requestQueue s"
  "timers (settle p oc s) = timers s"
  by (simp_all add: settle_def)

lemma clearTimeout_other [simp]:
  "pendingRequests (clearTimeout t s) = pendingRequests s"
  "requestQueue (clearTimeout t s) = requestQueue s"
  "promises (clearTimeout t s) = promises s"
  by (simp_all add: clearTimeout_def)

lemma pendingRequests_delete_other [simp]:
  "requestQueue (pendingRequests_delete k s) = requestQueue s"
  "promises (pendingRequests_delete k s) = promises s"
  "timers (pendingRequests_delete k s) = timers s"
  by (simp_all add: pendingRequests_delete_def)

lemma pendingRequests_delete_str [simp]:
  "pendingRequests (pendingRequests_delete (JStr k) s) = filter (\<lambda>e. fst e \<noteq> k) (pendingRequests s)"
  by (simp add: pendingRequests_delete_def)


lemma map_has_str: "map_has m (JStr k) = (k \<in> fst ` set m)"
  by (simp add: map_has_def map_of_eq_None_iff)


lemma remove1_map_fst:
  "distinct (map fst m) \<Longrightarrow> remove1 k (map fst m) = map fst (filter (\<lambda>e. fst e \<noteq> k) m)"
proof (induction m)
  case Nil show ?case by simp
next
  case (Cons e m)
  show ?case
  proof (cases "fst e = k")
    case True
    with Cons.prems have "k \<notin> fst ` set m" by auto
    then have "filter (\<lambda>e. fst e \<noteq> k) m = m" by (auto simp: filter_id_conv)
    with True show ?thesis by simp
  next
    case False
    with Cons show ?thesis by simp
  qed
qed

lemma dropEntry_fields:
  "pendingRequests (dropEntry k r oc s) = filter (\<lambda>e. fst e \<noteq> k) (pendingRequests s)"
  "requestQueue (dropEntry k r oc s) = remove1 k (requestQueue s)"
  "timers (dropEntry k r oc s) = timers (clearTimeout (timeoutId r) s)"
  by (simp_all add: dropEntry_def requestQueue_removeFromQueue)

lemma queue_inv_drop:
  assumes "queue_inv s"
    and "pendingRequests s' = filter (\<lambda>e. fst e \<noteq> k) (pendingRequests s)"
    and "requestQueue s' = remove1 k (requestQueue s)"
  shows "queue_inv s'"
proof -
  from assms(1) have q: "requestQueue s = map fst (pendingRequests s)"
    and d: "distinct (map fst (pendingRequests s))" by (simp_all add: queue_inv_def)
  have "requestQueue s' = map fst (pendingRequests s')"
    using assms(2,3) q remove1_map_fst[OF d, of k] by simp
  moreover have "distinct (map fst (pendingRequests s'))"
    using assms(2) d by (simp add: distinct_map_filter)
  ultimately show ?thesis by (simp add: queue_inv_def)
qed

lemma resolveRequest_Some:
  "map_get (pendingRequests s) (JStr k) = Some r \<Longrightarrow>
   resolveRequest (JStr k) v s = (True, dropEntry k r (Resolved v) s)"
  by (simp add: resolveRequest_def dropEntry_def)

lemma rejectRequest_Some:
  "map_get (pendingRequests s) (JStr k) = Some r \<Longrightarrow>
   rejectRequest (JStr k) e s = (True, dropEntry k r (Rejected e) s)"
  by (simp add: rejectRequest_def dropEntry_def)

lemma resolveRequest_None:
  "map_get (pendingRequests s) k = None \<Longrightarrow> resolveRequest k v s = (False, s)"
  by (simp add: resolveRequest_def)

lemma rejectRequest_None:
  "map_get (pendingRequests s) k = None \<Longrightarrow> rejectRequest k e s = (False, s)"
  by (simp add: rejectRequest_def)


lemma map_set_fresh: "k \<notin> fst ` set m \<Longrightarrow> map_set m k v = m @ [(k, v)]"
  by (induction m) auto

lemma map_the_map_of:
  "distinct (map fst m) \<Longrightarrow> map (\<lambda>k. f (the (map_of m k))) (map fst m) = map (\<lambda>e. f (snd e)) m"
proof (induction m)
  case Nil show ?case by simp
next
  case (Cons e m)
  obtain k v where e: "e = (k, v)" by (cases e)
  from Cons.prems e have kn: "k \<notin> fst ` set m" and d: "distinct (map fst m)" by auto
  have "map (\<lambda>k'. f (the (map_of (e # m) k'))) (map fst m) = map (\<lambda>k'. f (the (map_of m k'))) (map fst m)"
    using kn e by (intro map_cong) auto
  with Cons.IH[OF d] e show ?case by simp
qed

lemma getPendingRequest_loop_eq:
  "getPendingRequest_loop m q =
     (case filter (live m) q of [] \<Rightarrow> None | k # _ \<Rightarrow> Some (polled_of (the (map_of m k))),
      dropWhile (\<lambda>k. \<not> live m k) q)"
  by (induction q) (auto simp: live_def)

lemma getPendingRequests_scan_results:
  "fst (getPendingRequests_scan m maxCount rest i results toRemove) =
     results @ take (nat (maxCount - int (length results)))
                 (map (\<lambda>k. polled_of (the (map_of m k))) (filter (live m) rest))"
proof (induction rest arbitrary: i results toRemove)
  case Nil show ?case by simp
next
  case (Cons k rest)
  show ?case
  proof (cases "int (length results) < maxCount")
    case False then show ?thesis by simp
  next
    case True
    then have n: "nat (maxCount - int (length results)) = Suc (nat (maxCount - int (length results) - 1))"
      by simp
    show ?thesis
    proof (cases "map_of m k")
      case None
      with True Cons.IH[of "Suc i" results "toRemove @ [i]"] show ?thesis by (simp add: live_def)
    next
      case (Some r)
      have "nat (maxCount - int (length (results @ [polled_of r]))) = nat (maxCount - int (length results) - 1)"
        by simp
      with True Some Cons.IH[of "Suc i" "results @ [polled_of r]" toRemove] n show ?thesis
        by (simp add: live_def)
    qed
  qed
qed

lemma getPendingRequests_scan_toRemove:
  "\<forall>k\<in>set rest. live m k \<Longrightarrow>
   snd (getPendingRequests_scan m maxCount rest i results toRemove) = toRemove"
  by (induction rest arbitrary: i results toRemove) (auto simp: live_def)

lemma queue_inv_live: "queue_inv s \<Longrightarrow> \<forall>k\<in>set (requestQueue s). live (pendingRequests s) k"
  by (auto simp: queue_inv_def live_def map_of_eq_None_iff)

lemma getPendingRequests_inv:
  assumes "queue_inv s"
  shows "getPendingRequests maxCount s =
           (take (nat maxCount) (map (\<lambda>e. polled_of (snd e)) (pendingRequests s)), s)"
proof -
  let ?m = "pendingRequests s" and ?q = "requestQueue s"
  obtain res tr where sc: "getPendingRequests_scan ?m maxCount ?q 0 [] [] = (res, tr)"
    by (cases "getPendingRequests_scan ?m maxCount ?q 0 [] []")
  have lv: "\<forall>k\<in>set ?q. live ?m k" by (rule queue_inv_live[OF assms])
  then have f: "filter (live ?m) ?q = ?q" by (simp add: filter_id_conv)
  from assms have q: "?q = map fst ?m" and d: "distinct (map fst ?m)" by (simp_all add: queue_inv_def)
  have "res = take (nat maxCount) (map (\<lambda>k. polled_of (the (map_of ?m k))) ?q)"
    using getPendingRequests_scan_results[of ?m maxCount ?q 0 "[]" "[]"] sc f by simp
  also have "map (\<lambda>k. polled_of (the (map_of ?m k))) ?q = map (\<lambda>e. polled_of (snd e)) ?m"
    using map_the_map_of[OF d, of polled_of] q by simp
  finally have r: "res = take (nat maxCount) (map (\<lambda>e. polled_of (snd e)) ?m)" .
  have "tr = []" using getPendingRequests_scan_toRemove[OF lv, of maxCount 0 "[]" "[]"] sc by simp
  with r sc show ?thesis by (simp add: getPendingRequests_def spliceAll_def)
qed

lemma getPendingRequest_inv:
  assumes "queue_inv s"
  shows "getPendingRequest s =
           (case pendingRequests s of [] \<Rightarrow> None | e # _ \<Rightarrow> Some (polled_of (snd e)), s)"
proof (cases "pendingRequests s")
  case Nil
  with assms show ?thesis by (simp add: getPendingRequest_def queue_inv_def)
next
  case (Cons e m)
  obtain k r where e: "e = (k, r)" by (cases e)
  with Cons assms have "requestQueue s = k # map fst m" by (simp add: queue_inv_def)
  with Cons e show ?thesis by (simp add: getPendingRequest_def)
qed


subsection \<open>shrinks\<close>

lemma shrinks_refl: "shrinks s s"
  by (simp add: shrinks_def)

lemma shrinks_trans [trans]:
  assumes "shrinks s s'" and "shrinks s' s''"
  shows "shrinks s s''"
proof -
  have a: "set (pendingRequests s'') \<subseteq> set (pendingRequests s)"
    using assms by (auto simp: shrinks_def)
  have b: "subseq (requestQueue s'') (requestQueue s)"
    using assms subseq_order.trans[of "requestQueue s''" "requestQueue s'" "requestQueue s"]
    by (simp add: shrinks_def)
  have c: "length (promises s'') = length (promises s)"
    using assms by (simp add: shrinks_def)
  have d: "promises s'' ! p = promises s ! p"
    if "p < length (promises s)" and "promises s ! p \<noteq> Pending" for p
  proof -
    from assms(1) that have 1: "promises s' ! p = promises s ! p" by (simp add: shrinks_def)
    from assms(1) that have 2: "p < length (promises s')" by (simp add: shrinks_def)
    from assms(2) 1 2 that show ?thesis by (simp add: shrinks_def)
  qed
  from a b c d show ?thesis by (simp add: shrinks_def)
qed

lemma subseq_remove1: "subseq (remove1 k xs) xs"
  by (induction xs) auto

lemma subseq_splice1: "subseq (splice1 i xs) xs"
proof -
  have "drop (Suc i) xs = drop 1 (drop i xs)" by simp
  then have "suffix (drop (Suc i) xs) (drop i xs)" by (metis suffix_drop)
  then have "subseq (drop (Suc i) xs) (drop i xs)" by (rule suffix_imp_subseq)
  then have "subseq (take i xs @ drop (Suc i) xs) (take i xs @ drop i xs)"
    by (intro list_emb_append_mono subseq_order.refl)
  then show ?thesis by (simp add: splice1_def)
qed

lemma shrinks_settle: "shrinks s (settle p oc s)"
  by (auto simp: shrinks_def settle_def nth_list_update)

lemma shrinks_clearTimeout: "shrinks s (clearTimeout t s)"
  by (simp add: shrinks_def)

lemma shrinks_removeFromQueue: "shrinks s (removeFromQueue k s)"
proof (cases k)
  case (JStr x)
  then show ?thesis by (simp add: shrinks_def requestQueue_removeFromQueue subseq_remove1)
qed (simp_all add: removeFromQueue_nonstr shrinks_refl)

lemma shrinks_delete: "shrinks s (pendingRequests_delete k s)"
  by (cases k) (auto simp: shrinks_def pendingRequests_delete_def)

lemma shrinks_dropEntry: "shrinks s (dropEntry k r oc s)"
proof -
  let ?s1 = "clearTimeout (timeoutId r) s"
  let ?s2 = "removeFromQueue (JStr k) ?s1"
  let ?s3 = "pendingRequests_delete (JStr k) ?s2"
  have "shrinks s ?s1" by (rule shrinks_clearTimeout)
  also have "shrinks ?s1 ?s2" by (rule shrinks_removeFromQueue)
  also have "shrinks ?s2 ?s3" by (rule shrinks_delete)
  also have "shrinks ?s3 (settle (promise r) oc ?s3)" by (rule shrinks_settle)
  finally show ?thesis by (simp add: dropEntry_def)
qed


lemma shrinks_resolveRequest: "shrinks s (snd (resolveRequest k v s))"
proof (cases "map_get (pendingRequests s) k")
  case None then show ?thesis by (simp add: resolveRequest_None shrinks_refl)
next
  case (Some r)
  then obtain x where k: "k = JStr x" by (cases k) simp_all
  from Some k have "resolveRequest k v s = (True, dropEntry x r (Resolved v) s)"
    using resolveRequest_Some[of s x r v] by simp
  then show ?thesis by (simp add: shrinks_dropEntry)
qed

lemma shrinks_rejectRequest: "shrinks s (snd (rejectRequest k e s))"
proof (cases "map_get (pendingRequests s) k")
  case None then show ?thesis by (simp add: rejectRequest_None shrinks_refl)
next
  case (Some r)
  then obtain x where k: "k = JStr x" by (cases k) simp_all
  from Some k have "rejectRequest k e s = (True, dropEntry x r (Rejected e) s)"
    using rejectRequest_Some[of s x r e] by simp
  then show ?thesis by (simp add: shrinks_dropEntry)
qed

lemma shrinks_timeoutHandler: "shrinks s (timeoutHandler k rej s)"
proof (cases "map_has (pendingRequests s) (JStr k)")
  case False then show ?thesis by (simp add: timeoutHandler_def shrinks_refl)
next
  case True
  let ?s1 = "removeFromQueue (JStr k) s"
  let ?s2 = "pendingRequests_delete (JStr k) ?s1"
  have "shrinks s ?s1" by (rule shrinks_removeFromQueue)
  also have "shrinks ?s1 ?s2" by (rule shrinks_delete)
  also have "shrinks ?s2 (settle rej (Rejected (JError ''Request timeout'')) ?s2)"
    by (rule shrinks_settle)
  finally show ?thesis using True by (simp add: timeoutHandler_def)
qed

lemma shrinks_timers_update: "shrinks s (s\<lparr>timers := ts\<rparr>)"
  by (simp add: shrinks_def)

lemma shrinks_fireTimer: "shrinks s (fireTimer now t s)"
proof (cases "t < length (timers s) \<and> armed (timers s ! t) \<and> fireAt (timers s ! t) \<le> now")
  case False then show ?thesis by (auto simp: fireTimer_def shrinks_refl)
next
  case True
  let ?s1 = "s\<lparr>timers := (timers s)[t := (timers s ! t)\<lparr>armed := False\<rparr>]\<rparr>"
  have "shrinks s ?s1" by (rule shrinks_timers_update)
  also have "shrinks ?s1 (timeoutHandler (t_requestId (timers s ! t)) (t_reject (timers s ! t)) ?s1)"
    by (rule shrinks_timeoutHandler)
  finally show ?thesis using True by (simp add: fireTimer_def)
qed


lemma cleanupOldRequests_loop_Cons:
  "cleanupOldRequests_loop now (e # rest) s =
     cleanupOldRequests_loop now rest
       (if now - timestamp (snd e) > requestTimeout
        then dropEntry (fst e) (snd e) (Rejected (JError ''Request timeout'')) s else s)"
  by (cases e) (simp add: dropEntry_def)

lemma shrinks_cleanup_loop: "shrinks s (cleanupOldRequests_loop now es s)"
proof (induction es arbitrary: s)
  case Nil show ?case by (simp add: shrinks_refl)
next
  case (Cons e es)
  let ?s1 = "if now - timestamp (snd e) > requestTimeout
        then dropEntry (fst e) (snd e) (Rejected (JError ''Request timeout'')) s else s"
  have "shrinks s ?s1" by (simp add: shrinks_refl shrinks_dropEntry)
  also have "shrinks ?s1 (cleanupOldRequests_loop now es ?s1)" by (rule Cons.IH)
  finally show ?case by (simp only: cleanupOldRequests_loop_Cons)
qed

lemma shrinks_cleanupOldRequests: "shrinks s (cleanupOldRequests now s)"
  by (simp add: cleanupOldRequests_def shrinks_cleanup_loop)

lemma clearAllPendingRequests_loop_Cons:
  "clearAllPendingRequests_loop (e # rest) s =
     clearAllPendingRequests_loop rest
       (settle (promise (snd e)) (Rejected (JError ''Connection closed''))
         (clearTimeout (timeoutId (snd e)) s))"
  by (cases e) simp

lemma shrinks_clearAll_loop: "shrinks s (clearAllPendingRequests_loop es s)"
proof (induction es arbitrary: s)
  case Nil show ?case by (simp add: shrinks_refl)
next
  case (Cons e es)
  let ?s1 = "clearTimeout (timeoutId (snd e)) s"
  let ?s2 = "settle (promise (snd e)) (Rejected (JError ''Connection closed'')) ?s1"
  have "shrinks s ?s1" by (rule shrinks_clearTimeout)
  also have "shrinks ?s1 ?s2" by (rule shrinks_settle)
  also have "shrinks ?s2 (clearAllPendingRequests_loop es ?s2)" by (rule Cons.IH)
  finally show ?case by (simp only: clearAllPendingRequests_loop_Cons)
qed

lemma shrinks_reset: "shrinks s (s\<lparr>pendingRequests := [], requestQueue := []\<rparr>)"
  by (simp add: shrinks_def)

lemma shrinks_clearAllPendingRequests: "shrinks s (clearAllPendingRequests s)"
proof -
  have "shrinks s (clearAllPendingRequests_loop (pendingRequests s) s)"
    by (rule shrinks_clearAll_loop)
  also have "shrinks \<dots> (clearAllPendingRequests s)"
    unfolding clearAllPendingRequests_def by (rule shrinks_reset)
  finally show ?thesis .
qed

lemma shrinks_queue_update: "subseq q (requestQueue s) \<Longrightarrow> shrinks s (s\<lparr>requestQueue := q\<rparr>)"
  by (simp add: shrinks_def)

lemma shrinks_getPendingRequest: "shrinks s (snd (getPendingRequest s))"
proof -
  have "subseq (dropWhile (\<lambda>k. \<not> live (pendingRequests s) k) (requestQueue s)) (requestQueue s)"
    by (rule suffix_imp_subseq) (rule suffix_dropWhile)
  then show ?thesis
    by (simp add: getPendingRequest_def getPendingRequest_loop_eq shrinks_queue_update)
qed

lemma subseq_spliceAll: "subseq (spliceAll is q) q"
proof -
  have "subseq (fold splice1 js q) q" for js
  proof (induction js arbitrary: q)
    case Nil show ?case by simp
  next
    case (Cons j js)
    have "subseq (fold splice1 js (splice1 j q)) (splice1 j q)" by (rule Cons.IH)
    then show ?case using subseq_splice1[of j q] subseq_order.trans by fastforce
  qed
  then show ?thesis by (simp add: spliceAll_def)
qed

lemma shrinks_getPendingRequests: "shrinks s (snd (getPendingRequests n s))"
  by (simp add: getPendingRequests_def split_beta shrinks_queue_update subseq_spliceAll)


lemma resolveRequests_loop_Cons:
  "resolveRequests_loop (resp # rest) a b s =
     resolveRequests_loop rest
       (if fst (settleEntry resp s) then a + 1 else a)
       (if fst (settleEntry resp s) then b else b + 1)
       (snd (settleEntry resp s))"
proof (cases "truthy (error resp)")
  case True
  obtain ok s' where r: "rejectRequest (requestId resp) (error resp) s = (ok, s')"
    by (cases "rejectRequest (requestId resp) (error resp) s")
  with True show ?thesis by (cases ok) (simp_all add: settleEntry_def)
next
  case False
  obtain ok s' where r: "resolveRequest (requestId resp) (response resp) s = (ok, s')"
    by (cases "resolveRequest (requestId resp) (response resp) s")
  with False show ?thesis by (cases ok) (simp_all add: settleEntry_def)
qed

lemma shrinks_settleEntry: "shrinks s (snd (settleEntry resp s))"
  by (simp add: settleEntry_def shrinks_resolveRequest shrinks_rejectRequest)

lemma shrinks_resolveRequests_loop: "shrinks s (snd (resolveRequests_loop rs a b s))"
proof (induction rs arbitrary: a b s)
  case Nil show ?case by (simp add: shrinks_refl)
next
  case (Cons resp rs)
  have "shrinks s (snd (settleEntry resp s))" by (rule shrinks_settleEntry)
  also have "shrinks (snd (settleEntry resp s))
     (snd (resolveRequests_loop rs (if fst (settleEntry resp s) then a + 1 else a)
       (if fst (settleEntry resp s) then b else b + 1) (snd (settleEntry resp s))))"
    by (rule Cons.IH)
  finally show ?case by (simp only: resolveRequests_loop_Cons)
qed

lemma shrinks_step: "\<forall>k. \<not> sends a k \<Longrightarrow> shrinks s (step a s)"
proof (cases a)
  case (Send k ep d now) then show ?thesis if "\<forall>k. \<not> sends a k" using that by simp
qed (simp_all add: shrinks_getPendingRequest shrinks_getPendingRequests shrinks_resolveRequest
      shrinks_rejectRequest resolveRequests_def shrinks_resolveRequests_loop shrinks_fireTimer
      shrinks_cleanupOldRequests shrinks_clearAllPendingRequests)

subsection \<open>sendRequest\<close>

lemma sendRequest_fields:
  "promises (snd (sendRequest k ep d now s)) = promises s @ [Pending]"
  "timers (snd (sendRequest k ep d now s)) = timers s @
     [\<lparr>t_requestId = k, t_reject = length (promises s), fireAt = now + requestTimeout, armed = True\<rparr>]"
  "requestQueue (snd (sendRequest k ep d now s)) = requestQueue s @ [k]"
  "pendingRequests (snd (sendRequest k ep d now s)) =
     map_set (pendingRequests s) k
       \<lparr>id_req = k, endpoint = ep, data = d, timestamp = now,
        promise = length (promises s), timeoutId = length (timers s)\<rparr>"
  "fst (sendRequest k ep d now s) = length (promises s)"
  by (simp_all add: sendRequest_def Let_def)

subsection \<open>The queue mirrors the map\<close>


lemma queue_inv_dropEntry: "queue_inv s \<Longrightarrow> queue_inv (dropEntry k r oc s)"
  by (rule queue_inv_drop[where k = k]) (simp_all add: dropEntry_fields)

lemma queue_inv_resolveRequest: "queue_inv s \<Longrightarrow> queue_inv (snd (resolveRequest k v s))"
proof (cases "map_get (pendingRequests s) k")
  case None then show ?thesis if "queue_inv s" using that by (simp add: resolveRequest_None)
next
  case (Some r)
  then obtain x where k: "k = JStr x" by (cases k) simp_all
  from Some k have "resolveRequest k v s = (True, dropEntry x r (Resolved v) s)"
    using resolveRequest_Some[of s x r v] by simp
  then show ?thesis if "queue_inv s" using that by (simp add: queue_inv_dropEntry)
qed

lemma queue_inv_rejectRequest: "queue_inv s \<Longrightarrow> queue_inv (snd (rejectRequest k e s))"
proof (cases "map_get (pendingRequests s) k")
  case None then show ?thesis if "queue_inv s" using that by (simp add: rejectRequest_None)
next
  case (Some r)
  then obtain x where k: "k = JStr x" by (cases k) simp_all
  from Some k have "rejectRequest k e s = (True, dropEntry x r (Rejected e) s)"
    using rejectRequest_Some[of s x r e] by simp
  then show ?thesis if "queue_inv s" using that by (simp add: queue_inv_dropEntry)
qed

lemma queue_inv_timeoutHandler: "queue_inv s \<Longrightarrow> queue_inv (timeoutHandler k rej s)"
proof (cases "map_has (pendingRequests s) (JStr k)")
  case False then show ?thesis if "queue_inv s" using that by (simp add: timeoutHandler_def)
next
  case True
  assume "queue_inv s"
  then have "queue_inv (settle rej (Rejected (JError ''Request timeout''))
             (pendingRequests_delete (JStr k) (removeFromQueue (JStr k) s)))"
    by (rule queue_inv_drop[where k = k]) (simp_all add: requestQueue_removeFromQueue)
  with True show ?thesis by (simp add: timeoutHandler_def)
qed

lemma queue_inv_fireTimer: "queue_inv s \<Longrightarrow> queue_inv (fireTimer now t s)"
proof (cases "t < length (timers s) \<and> armed (timers s ! t) \<and> fireAt (timers s ! t) \<le> now")
  case False then show ?thesis if "queue_inv s" using that by (auto simp: fireTimer_def)
next
  case True
  assume "queue_inv s"
  then have "queue_inv (s\<lparr>timers := (timers s)[t := (timers s ! t)\<lparr>armed := False\<rparr>]\<rparr>)"
    by (simp add: queue_inv_def)
  then show ?thesis using True by (simp add: fireTimer_def queue_inv_timeoutHandler)
qed

lemma queue_inv_cleanup_loop: "queue_inv s \<Longrightarrow> queue_inv (cleanupOldRequests_loop now es s)"
proof (induction es arbitrary: s)
  case Nil then show ?case by simp
next
  case (Cons e es)
  from Cons.prems have "queue_inv (if now - timestamp (snd e) > requestTimeout
        then dropEntry (fst e) (snd e) (Rejected (JError ''Request timeout'')) s else s)"
    by (simp add: queue_inv_dropEntry)
  then show ?case by (simp only: cleanupOldRequests_loop_Cons Cons.IH)
qed

lemma queue_inv_settleEntry: "queue_inv s \<Longrightarrow> queue_inv (snd (settleEntry resp s))"
  by (simp add: settleEntry_def queue_inv_resolveRequest queue_inv_rejectRequest)

lemma queue_inv_resolveRequests_loop:
  "queue_inv s \<Longrightarrow> queue_inv (snd (resolveRequests_loop rs a b s))"
proof (induction rs arbitrary: a b s)
  case Nil then show ?case by simp
next
  case (Cons resp rs)
  from Cons.prems have "queue_inv (snd (settleEntry resp s))" by (rule queue_inv_settleEntry)
  then show ?case by (simp only: resolveRequests_loop_Cons Cons.IH)
qed

lemma queue_inv_clearAll: "queue_inv (clearAllPendingRequests s)"
  by (simp add: clearAllPendingRequests_def queue_inv_def)

lemma queue_inv_sendRequest:
  assumes "queue_inv s" and "\<not> hasPendingRequest (JStr k) s"
  shows "queue_inv (snd (sendRequest k ep d now s))"
proof -
  from assms(2) have f: "k \<notin> fst ` set (pendingRequests s)"
    by (simp add: hasPendingRequest_def map_has_str)
  with assms(1) show ?thesis
    by (simp add: queue_inv_def sendRequest_fields map_set_fresh)
qed

lemma queue_inv_step: "queue_inv s \<Longrightarrow> op_fresh a s \<Longrightarrow> queue_inv (step a s)"
  by (cases a)
     (simp_all add: queue_inv_sendRequest getPendingRequest_inv getPendingRequests_inv
        queue_inv_resolveRequest queue_inv_rejectRequest resolveRequests_def
        queue_inv_resolveRequests_loop queue_inv_fireTimer cleanupOldRequests_def
        queue_inv_cleanup_loop queue_inv_clearAll)

lemma queue_inv_run: "queue_inv s \<Longrightarrow> fresh_run ops s \<Longrightarrow> queue_inv (run ops s)"
  by (induction ops arbitrary: s) (simp_all add: queue_inv_step)

lemma queue_inv_new: "queue_inv newBridgeService"
  by (simp add: queue_inv_def newBridgeService_def)


lemma queue_order_run:
  "subseq (requestQueue (run ops s)) (requestQueue s @ sent_ids ops)"
proof (induction ops arbitrary: s)
  case Nil show ?case by simp
next
  case (Cons a ops)
  have IH: "subseq (requestQueue (run ops (step a s))) (requestQueue (step a s) @ sent_ids ops)"
    by (rule Cons.IH)
  show ?case
  proof (cases "\<exists>k ep d now. a = Send k ep d now")
    case True
    then obtain k ep d now where a: "a = Send k ep d now" by blast
    with IH show ?thesis by (simp add: sendRequest_fields)
  next
    case False
    then have ns: "\<forall>k. \<not> sends a k" by (cases a) simp_all
    from False have si: "sent_ids (a # ops) = sent_ids ops" by (cases a) simp_all
    have "subseq (requestQueue (step a s)) (requestQueue s)"
      using shrinks_step[OF ns, of s] by (simp add: shrinks_def)
    then have "subseq (requestQueue (step a s) @ sent_ids ops) (requestQueue s @ sent_ids ops)"
      by (intro list_emb_append_mono subseq_order.refl)
    with IH have "subseq (requestQueue (run ops (step a s))) (requestQueue s @ sent_ids ops)"
      using subseq_order.trans by blast
    with si show ?thesis by simp
  qed
qed

text \<open>
  C10. From a state in which the queue mirrors the map, after any operations of the bridge
  (registrations with identifiers that are not pending, retrievals, settlements, timer
  callbacks, sweeps, clearing) the queue holds exactly the keys of the map, each once and
  in the order of the map, which is the order of registration; the pending count is the
  length of the queue; every queued identifier is pending, so that the retrievals find
  nothing stale to remove and leave the state as it is.
\<close>

theorem queue_mirrors_map:
  assumes "queue_inv s" and "fresh_run ops s"
  shows "requestQueue (run ops s) = map fst (pendingRequests (run ops s)) \<and>
         distinct (requestQueue (run ops s)) \<and>
         subseq (requestQueue (run ops s)) (requestQueue s @ sent_ids ops) \<and>
         getPendingCount (run ops s) = length (requestQueue (run ops s)) \<and>
         (\<forall>k \<in> set (requestQueue (run ops s)). hasPendingRequest (JStr k) (run ops s)) \<and>
         snd (getPendingRequest (run ops s)) = run ops s \<and>
         (\<forall>n. snd (getPendingRequests n (run ops s)) = run ops s)"
proof -
  let ?s = "run ops s"
  have inv: "queue_inv ?s" using assms by (rule queue_inv_run)
  then have q: "requestQueue ?s = map fst (pendingRequests ?s)"
    and d: "distinct (map fst (pendingRequests ?s))" by (simp_all add: queue_inv_def)
  have 1: "distinct (requestQueue ?s)" using q d by simp
  have 2: "getPendingCount ?s = length (requestQueue ?s)" using q by (simp add: getPendingCount_def)
  have 3: "\<forall>k \<in> set (requestQueue ?s). hasPendingRequest (JStr k) ?s"
    using q by (simp add: hasPendingRequest_def map_has_str)
  have 4: "snd (getPendingRequest ?s) = ?s" by (simp add: getPendingRequest_inv[OF inv])
  have 5: "\<forall>n. snd (getPendingRequests n ?s) = ?s" by (simp add: getPendingRequests_inv[OF inv])
  from q 1 2 3 4 5 queue_order_run[of ops s] show ?thesis by blast
qed

theorem queue_mirrors_map_witness:
  "queue_inv newBridgeService \<and> fresh_run ops_example newBridgeService \<and>
   requestQueue (run ops_example newBridgeService) =
     map fst (pendingRequests (run ops_example newBridgeService)) \<and>
   distinct (requestQueue (run ops_example newBridgeService)) \<and>
   subseq (requestQueue (run ops_example newBridgeService))
     (requestQueue newBridgeService @ sent_ids ops_example) \<and>
   getPendingCount (run ops_example newBridgeService) =
     length (requestQueue (run ops_example newBridgeService)) \<and>
   snd (getPendingRequest (run ops_example newBridgeService)) = run ops_example newBridgeService \<and>
   requestQueue (run ops_example newBridgeService) = [''d''] \<and>
   sent_ids ops_example = [''a'', ''b'', ''c'', ''d'']"
proof -
  have h1: "queue_inv newBridgeService" by (rule queue_inv_new)
  have h2: "fresh_run ops_example newBridgeService" by code_simp
  have c1: "requestQueue (run ops_example newBridgeService) = [''d'']" by code_simp
  have c2: "sent_ids ops_example = [''a'', ''b'', ''c'', ''d'']" by code_simp
  from queue_mirrors_map[OF h1 h2] h1 h2 c1 c2 show ?thesis by blast
qed

subsection \<open>FIFO retrieval\<close>

lemma sendAll_pending:
  assumes "queue_inv s" and "distinct (map fst reqs)"
    and "\<forall>r\<in>set reqs. \<not> hasPendingRequest (JStr (fst r)) s"
  shows "queue_inv (sendAll reqs s) \<and>
         map (\<lambda>e. polled_of (snd e)) (pendingRequests (sendAll reqs s)) =
           map (\<lambda>e. polled_of (snd e)) (pendingRequests s) @
           map (\<lambda>r. (fst r, fst (snd r), fst (snd (snd r)))) reqs"
  using assms
proof (induction reqs arbitrary: s)
  case Nil then show ?case by simp
next
  case (Cons r reqs)
  obtain k ep d now where r: "r = (k, ep, d, now)" by (cases r)
  let ?s1 = "snd (sendRequest k ep d now s)"
  from Cons.prems r have fresh: "\<not> hasPendingRequest (JStr k) s" by simp
  then have f: "k \<notin> fst ` set (pendingRequests s)" by (simp add: hasPendingRequest_def map_has_str)
  have inv1: "queue_inv ?s1" using Cons.prems(1) fresh by (rule queue_inv_sendRequest)
  have p1: "pendingRequests ?s1 = pendingRequests s @
      [(k, \<lparr>id_req = k, endpoint = ep, data = d, timestamp = now,
            promise = length (promises s), timeoutId = length (timers s)\<rparr>)]"
    using f by (simp add: sendRequest_fields map_set_fresh)
  have d1: "distinct (map fst reqs)" using Cons.prems(2) by simp
  have f1: "\<forall>r'\<in>set reqs. \<not> hasPendingRequest (JStr (fst r')) ?s1"
  proof
    fix r' assume in': "r' \<in> set reqs"
    with Cons.prems(2) r have "fst r' \<noteq> k" by auto
    moreover from in' Cons.prems(3) have "fst r' \<notin> fst ` set (pendingRequests s)"
      by (simp add: hasPendingRequest_def map_has_str)
    ultimately show "\<not> hasPendingRequest (JStr (fst r')) ?s1"
      using p1 by (auto simp: hasPendingRequest_def map_has_str)
  qed
  from Cons.IH[OF inv1 d1 f1] p1 r show ?case by (simp add: polled_of_def)
qed


subsection \<open>Consistency of the stores\<close>

lemma promises_dropEntry:
  "promises (dropEntry k r oc s) =
     (if promise r < length (promises s) \<and> promises s ! promise r = Pending
      then (promises s)[promise r := oc] else promises s)"
  by (simp add: dropEntry_def settle_def)

lemma timers_dropEntry:
  "timers (dropEntry k r oc s) =
     (if timeoutId r < length (timers s)
      then (timers s)[timeoutId r := (timers s ! timeoutId r)\<lparr>armed := False\<rparr>] else timers s)"
  by (simp add: dropEntry_def clearTimeout_def)

lemma timers_ok_iff:
  "timers_ok s = (\<forall>t < length (timers s). armed (timers s ! t) \<longrightarrow>
                    (\<exists>e \<in> set (pendingRequests s). timeoutId (snd e) = t))"
  by (auto simp: timers_ok_def list_all_iff)

lemma consistentD:
  assumes "consistent s"
  shows "queue_inv s" and "distinct (map fst (pendingRequests s))"
    and "\<And>e. e \<in> set (pendingRequests s) \<Longrightarrow> entry_ok s e"
    and "distinct (map (\<lambda>e. promise (snd e)) (pendingRequests s))"
    and "timers_ok s"
  using assms by (simp_all add: consistent_def queue_inv_def list_all_iff)


lemma entries_differ:
  assumes c: "consistent s" and e: "(k, r) \<in> set (pendingRequests s)"
    and e': "(k', r') \<in> set (pendingRequests s)" and ne: "k' \<noteq> k"
  shows "promise r' \<noteq> promise r" and "timeoutId r' \<noteq> timeoutId r"
proof -
  have "inj_on (\<lambda>e. promise (snd e)) (set (pendingRequests s))"
    using consistentD(4)[OF c] by (simp add: distinct_map)
  from inj_onD[OF this, of "(k', r')" "(k, r)"] e e' ne show "promise r' \<noteq> promise r" by auto
  have 1: "t_requestId (timers s ! timeoutId r) = k"
    using consistentD(3)[OF c e] by (simp add: entry_ok_def)
  have 2: "t_requestId (timers s ! timeoutId r') = k'"
    using consistentD(3)[OF c e'] by (simp add: entry_ok_def)
  from 1 2 ne show "timeoutId r' \<noteq> timeoutId r" by auto
qed

lemma consistent_dropEntry:
  assumes c: "consistent s" and e: "(k, r) \<in> set (pendingRequests s)"
  shows "consistent (dropEntry k r oc s)"
proof -
  let ?s' = "dropEntry k r oc s"
  have q: "queue_inv ?s'" using consistentD(1)[OF c] by (rule queue_inv_dropEntry)
  have d: "distinct (map (\<lambda>e. promise (snd e)) (pendingRequests ?s'))"
    using consistentD(4)[OF c] by (simp add: dropEntry_fields distinct_map_filter)
  have ok: "entry_ok ?s' e'" if "e' \<in> set (pendingRequests ?s')" for e'
  proof -
    obtain k' r' where e': "e' = (k', r')" by (cases e')
    from that e' have in': "(k', r') \<in> set (pendingRequests s)" and ne: "k' \<noteq> k"
      by (simp_all add: dropEntry_fields)
    from entries_differ[OF c e in' ne]
    have np: "promise r' \<noteq> promise r" and nt: "timeoutId r' \<noteq> timeoutId r" .
    from consistentD(3)[OF c in'] have ok0: "entry_ok s (k', r')" .
    from ok0 np nt show ?thesis
      by (simp add: e' entry_ok_def promises_dropEntry timers_dropEntry)
  qed
  have t: "timers_ok ?s'"
    unfolding timers_ok_iff
  proof (intro allI impI)
    fix t assume lt: "t < length (timers ?s')" and ar: "armed (timers ?s' ! t)"
    from lt have lt0: "t < length (timers s)" by (simp add: timers_dropEntry split: if_splits)
    have tr: "timeoutId r < length (timers s)"
      using consistentD(3)[OF c e] by (simp add: entry_ok_def)
    from ar lt0 tr have ne: "t \<noteq> timeoutId r" by (auto simp: timers_dropEntry)
    with ar lt0 have "armed (timers s ! t)" by (simp add: timers_dropEntry split: if_splits)
    with consistentD(5)[OF c] lt0 obtain e' where in': "e' \<in> set (pendingRequests s)"
      and te: "timeoutId (snd e') = t" unfolding timers_ok_iff by blast
    from te ne have "e' \<noteq> (k, r)" by auto
    moreover have "fst e' \<noteq> k"
    proof
      assume "fst e' = k"
      with in' e consistentD(2)[OF c] have "e' = (k, r)"
        by (metis eq_key_imp_eq_value prod.collapse)
      with \<open>e' \<noteq> (k, r)\<close> show False by simp
    qed
    ultimately have "e' \<in> set (pendingRequests ?s')" using in' by (simp add: dropEntry_fields)
    with te show "\<exists>e\<in>set (pendingRequests ?s'). timeoutId (snd e) = t" by blast
  qed
  from q d ok t show ?thesis by (simp add: consistent_def list_all_iff)
qed



lemma consistent_resolveRequest: "consistent s \<Longrightarrow> consistent (snd (resolveRequest k v s))"
proof (cases "map_get (pendingRequests s) k")
  case None then show ?thesis if "consistent s" using that by (simp add: resolveRequest_None)
next
  case (Some r)
  then obtain x where k: "k = JStr x" by (cases k) simp_all
  from Some k have in': "(x, r) \<in> set (pendingRequests s)" by (simp add: map_of_SomeD)
  from Some k have "resolveRequest k v s = (True, dropEntry x r (Resolved v) s)"
    using resolveRequest_Some[of s x r v] by simp
  then show ?thesis if "consistent s" using that in' by (simp add: consistent_dropEntry)
qed

lemma consistent_rejectRequest: "consistent s \<Longrightarrow> consistent (snd (rejectRequest k e s))"
proof (cases "map_get (pendingRequests s) k")
  case None then show ?thesis if "consistent s" using that by (simp add: rejectRequest_None)
next
  case (Some r)
  then obtain x where k: "k = JStr x" by (cases k) simp_all
  from Some k have in': "(x, r) \<in> set (pendingRequests s)" by (simp add: map_of_SomeD)
  from Some k have "rejectRequest k e s = (True, dropEntry x r (Rejected e) s)"
    using rejectRequest_Some[of s x r e] by simp
  then show ?thesis if "consistent s" using that in' by (simp add: consistent_dropEntry)
qed

text \<open>In a consistent state a timer that fires does to its entry what the other settlement paths do.\<close>

lemma fireTimer_dropEntry:
  assumes c: "consistent s" and e: "(k, r) \<in> set (pendingRequests s)"
    and due: "timestamp r + requestTimeout \<le> now"
  shows "fireTimer now (timeoutId r) s = dropEntry k r (Rejected (JError ''Request timeout'')) s"
proof -
  from consistentD(3)[OF c e] have lt: "timeoutId r < length (timers s)"
    and tm: "timers s ! timeoutId r =
      \<lparr>t_requestId = k, t_reject = promise r, fireAt = timestamp r + requestTimeout, armed = True\<rparr>"
    by (simp_all add: entry_ok_def)
  have has: "map_has (pendingRequests s) (JStr k)"
    using e by (force simp: map_has_str)
  show ?thesis
    using lt tm has due
    by (simp add: fireTimer_def timeoutHandler_def dropEntry_def clearTimeout_def
          settle_def pendingRequests_delete_def removeFromQueue_def Let_def)
qed

lemma fireTimer_idle:
  "\<not> (t < length (timers s) \<and> armed (timers s ! t) \<and> fireAt (timers s ! t) \<le> now) \<Longrightarrow>
   fireTimer now t s = s"
  by (auto simp: fireTimer_def)

text \<open>A timer that fires belongs to a pending entry, and drops it.\<close>

lemma fireTimer_cases:
  assumes c: "consistent s"
  shows "fireTimer now t s = s \<or>
         (\<exists>k r. (k, r) \<in> set (pendingRequests s) \<and> timeoutId r = t \<and>
                 timestamp r + requestTimeout \<le> now \<and>
                 fireTimer now t s = dropEntry k r (Rejected (JError ''Request timeout'')) s)"
proof (cases "t < length (timers s) \<and> armed (timers s ! t) \<and> fireAt (timers s ! t) \<le> now")
  case False then show ?thesis by (simp add: fireTimer_idle)
next
  case True
  with consistentD(5)[OF c] obtain e where in': "e \<in> set (pendingRequests s)"
    and te: "timeoutId (snd e) = t" unfolding timers_ok_iff by blast
  obtain k r where e: "e = (k, r)" by (cases e)
  from consistentD(3)[OF c in'] e te True have due: "timestamp r + requestTimeout \<le> now"
    by (simp add: entry_ok_def)
  from fireTimer_dropEntry[OF c _ due, of k] in' e te
  have "fireTimer now t s = dropEntry k r (Rejected (JError ''Request timeout'')) s" by simp
  with in' e te due show ?thesis by auto
qed

lemma consistent_fireTimer: "consistent s \<Longrightarrow> consistent (fireTimer now t s)"
  using fireTimer_cases[of s now t] by (auto simp: consistent_dropEntry)

lemma consistent_sendRequest:
  assumes c: "consistent s" and fresh: "\<not> hasPendingRequest (JStr k) s"
  shows "consistent (snd (sendRequest k ep d now s))"
proof -
  let ?s' = "snd (sendRequest k ep d now s)"
  let ?r = "\<lparr>id_req = k, endpoint = ep, data = d, timestamp = now,
        promise = length (promises s), timeoutId = length (timers s)\<rparr>"
  from fresh have f: "k \<notin> fst ` set (pendingRequests s)"
    by (simp add: hasPendingRequest_def map_has_str)
  then have p: "pendingRequests ?s' = pendingRequests s @ [(k, ?r)]"
    by (simp add: sendRequest_fields map_set_fresh)
  have q: "queue_inv ?s'" using consistentD(1)[OF c] fresh by (rule queue_inv_sendRequest)
  have old: "entry_ok s e" if "e \<in> set (pendingRequests s)" for e
    using consistentD(3)[OF c that] .
  have ok: "entry_ok ?s' e" if "e \<in> set (pendingRequests ?s')" for e
  proof (cases "e = (k, ?r)")
    case True
    then show ?thesis by (simp add: entry_ok_def sendRequest_fields nth_append)
  next
    case False
    with that p have "e \<in> set (pendingRequests s)" by simp
    from old[OF this] show ?thesis by (simp add: entry_ok_def sendRequest_fields nth_append)
  qed
  have "length (promises s) \<notin> (\<lambda>e. promise (snd e)) ` set (pendingRequests s)"
  proof
    assume "length (promises s) \<in> (\<lambda>e. promise (snd e)) ` set (pendingRequests s)"
    then obtain e where "e \<in> set (pendingRequests s)" and "promise (snd e) = length (promises s)"
      by (metis (mono_tags, lifting) imageE)
    with old[of e] show False by (simp add: entry_ok_def)
  qed
  then have d: "distinct (map (\<lambda>e. promise (snd e)) (pendingRequests ?s'))"
    using consistentD(4)[OF c] by (simp add: p)
  have t: "timers_ok ?s'"
    unfolding timers_ok_iff
  proof (intro allI impI)
    fix t assume lt: "t < length (timers ?s')" and ar: "armed (timers ?s' ! t)"
    show "\<exists>e\<in>set (pendingRequests ?s'). timeoutId (snd e) = t"
    proof (cases "t < length (timers s)")
      case True
      with ar have "armed (timers s ! t)" by (simp add: sendRequest_fields nth_append)
      with True consistentD(5)[OF c] obtain e where "e \<in> set (pendingRequests s)"
        and "timeoutId (snd e) = t" unfolding timers_ok_iff by blast
      with p show ?thesis by auto
    next
      case False
      with lt have "t = length (timers s)" by (simp add: sendRequest_fields)
      with p show ?thesis by simp
    qed
  qed
  from q d ok t show ?thesis by (simp add: consistent_def list_all_iff)
qed

lemma consistent_cleanup_loop:
  assumes "consistent s" and "set es \<subseteq> set (pendingRequests s)" and "distinct (map fst es)"
  shows "consistent (cleanupOldRequests_loop now es s)"
  using assms
proof (induction es arbitrary: s)
  case Nil then show ?case by simp
next
  case (Cons e es)
  obtain k r where e: "e = (k, r)" by (cases e)
  let ?s1 = "if now - timestamp (snd e) > requestTimeout
        then dropEntry (fst e) (snd e) (Rejected (JError ''Request timeout'')) s else s"
  from Cons.prems e have in': "(k, r) \<in> set (pendingRequests s)" by simp
  have c1: "consistent ?s1" using Cons.prems(1) in' e by (simp add: consistent_dropEntry)
  have "e' \<in> set (pendingRequests ?s1)" if "e' \<in> set es" for e'
  proof -
    from that Cons.prems(3) e have "fst e' \<noteq> k" by auto
    with that Cons.prems(2) show ?thesis by (auto simp: dropEntry_fields e)
  qed
  then have sub: "set es \<subseteq> set (pendingRequests ?s1)" by blast
  from Cons.prems(3) have d: "distinct (map fst es)" by simp
  from Cons.IH[OF c1 sub d] show ?case by (simp only: cleanupOldRequests_loop_Cons)
qed

lemma consistent_cleanupOldRequests: "consistent s \<Longrightarrow> consistent (cleanupOldRequests now s)"
  unfolding cleanupOldRequests_def
  by (rule consistent_cleanup_loop) (simp_all add: consistentD(2))

lemma consistent_settleEntry: "consistent s \<Longrightarrow> consistent (snd (settleEntry resp s))"
  by (simp add: settleEntry_def consistent_resolveRequest consistent_rejectRequest)

lemma consistent_resolveRequests_loop:
  "consistent s \<Longrightarrow> consistent (snd (resolveRequests_loop rs a b s))"
proof (induction rs arbitrary: a b s)
  case Nil then show ?case by simp
next
  case (Cons resp rs)
  from Cons.prems have "consistent (snd (settleEntry resp s))" by (rule consistent_settleEntry)
  then show ?case by (simp only: resolveRequests_loop_Cons Cons.IH)
qed


subsection \<open>What the loops leave in the stores\<close>

lemma promises_settle_nth:
  "promises (settle p oc s) ! q =
     (if q = p \<and> p < length (promises s) \<and> promises s ! p = Pending then oc else promises s ! q)"
  by (simp add: settle_def)

lemma length_promises_settle [simp]: "length (promises (settle p oc s)) = length (promises s)"
  by (simp add: settle_def)

lemma timers_clearTimeout_nth:
  "timers (clearTimeout t s) ! u =
     (if u = t \<and> t < length (timers s) then (timers s ! t)\<lparr>armed := False\<rparr> else timers s ! u)"
  by (simp add: clearTimeout_def)

lemma length_timers_clearTimeout [simp]: "length (timers (clearTimeout t s)) = length (timers s)"
  by (simp add: clearTimeout_def)

lemma clearAll_loop_fields:
  "pendingRequests (clearAllPendingRequests_loop es s) = pendingRequests s"
  "requestQueue (clearAllPendingRequests_loop es s) = requestQueue s"
  "length (promises (clearAllPendingRequests_loop es s)) = length (promises s)"
  "length (timers (clearAllPendingRequests_loop es s)) = length (timers s)"
  by (induction es arbitrary: s) (simp_all only: clearAllPendingRequests_loop.simps(1)
        clearAllPendingRequests_loop_Cons settle_other clearTimeout_other
        length_promises_settle length_timers_clearTimeout)

lemma clearAll_loop_promises:
  "p < length (promises s) \<Longrightarrow>
   promises (clearAllPendingRequests_loop es s) ! p =
     (if p \<in> (\<lambda>e. promise (snd e)) ` set es \<and> promises s ! p = Pending
      then Rejected (JError ''Connection closed'') else promises s ! p)"
proof (induction es arbitrary: s)
  case Nil show ?case by simp
next
  case (Cons e es)
  let ?s1 = "settle (promise (snd e)) (Rejected (JError ''Connection closed''))
               (clearTimeout (timeoutId (snd e)) s)"
  from Cons.prems have lt: "p < length (promises ?s1)" by simp
  have n: "promises ?s1 ! p =
     (if p = promise (snd e) \<and> promises s ! p = Pending
      then Rejected (JError ''Connection closed'') else promises s ! p)"
    using Cons.prems by (auto simp: promises_settle_nth)
  show ?case
    unfolding clearAllPendingRequests_loop_Cons Cons.IH[OF lt] n by auto
qed

lemma clearAll_loop_timers:
  "t < length (timers s) \<Longrightarrow>
   timers (clearAllPendingRequests_loop es s) ! t =
     (if t \<in> (\<lambda>e. timeoutId (snd e)) ` set es
      then (timers s ! t)\<lparr>armed := False\<rparr> else timers s ! t)"
proof (induction es arbitrary: s)
  case Nil show ?case by simp
next
  case (Cons e es)
  let ?s1 = "settle (promise (snd e)) (Rejected (JError ''Connection closed''))
               (clearTimeout (timeoutId (snd e)) s)"
  from Cons.prems have lt: "t < length (timers ?s1)" by simp
  have n: "timers ?s1 ! t =
     (if t = timeoutId (snd e) then (timers s ! t)\<lparr>armed := False\<rparr> else timers s ! t)"
    using Cons.prems by (auto simp: timers_clearTimeout_nth)
  show ?case
    unfolding clearAllPendingRequests_loop_Cons Cons.IH[OF lt] n by auto
qed

lemma consistent_clearAll: "consistent s \<Longrightarrow> consistent (clearAllPendingRequests s)"
proof -
  assume c: "consistent s"
  let ?l = "clearAllPendingRequests_loop (pendingRequests s) s"
  have "\<not> armed (timers ?l ! t)" if "t < length (timers s)" for t
  proof (cases "t \<in> (\<lambda>e. timeoutId (snd e)) ` set (pendingRequests s)")
    case True
    with that show ?thesis by (simp add: clearAll_loop_timers)
  next
    case False
    with consistentD(5)[OF c] that have "\<not> armed (timers s ! t)"
      unfolding timers_ok_iff by force
    with that False show ?thesis by (simp add: clearAll_loop_timers)
  qed
  then have "timers_ok (clearAllPendingRequests s)"
    by (simp add: timers_ok_iff clearAllPendingRequests_def clearAll_loop_fields)
  then show ?thesis
    by (simp add: consistent_def queue_inv_def clearAllPendingRequests_def)
qed

lemma consistent_step: "consistent s \<Longrightarrow> op_fresh a s \<Longrightarrow> consistent (step a s)"
proof (cases a)
  case GetOne
  then show ?thesis if "consistent s"
    using that getPendingRequest_inv[OF consistentD(1)[OF that]] by simp
next
  case (GetMany n)
  then show ?thesis if "consistent s"
    using that getPendingRequests_inv[OF consistentD(1)[OF that], of n] by simp
qed (simp_all add: consistent_sendRequest consistent_resolveRequest consistent_rejectRequest
       resolveRequests_def consistent_resolveRequests_loop consistent_fireTimer
       consistent_cleanupOldRequests consistent_clearAll)

lemma consistent_run: "consistent s \<Longrightarrow> fresh_run ops s \<Longrightarrow> consistent (run ops s)"
  by (induction ops arbitrary: s) (simp_all add: consistent_step)

lemma consistent_new: "consistent newBridgeService"
  by (simp add: consistent_def queue_inv_def timers_ok_def newBridgeService_def)

text \<open>
  Every state that a new bridge reaches by its operations is consistent, as long as
  \<open>uuidv4()\<close> returns identifiers that are not pending.
\<close>

theorem reachable_consistent:
  "fresh_run ops newBridgeService \<Longrightarrow> consistent (run ops newBridgeService)"
  using consistent_new by (rule consistent_run)

theorem reachable_consistent_witness:
  "fresh_run ops_example newBridgeService \<and> consistent (run ops_example newBridgeService) \<and>
   map fst (pendingRequests (run ops_example newBridgeService)) = [''d''] \<and>
   promises (run ops_example newBridgeService) =
     [Rejected (JError ''Request timeout''), Resolved (JBool True),
      Rejected (JError ''Request timeout''), Pending] \<and>
   map armed (timers (run ops_example newBridgeService)) = [False, False, False, True]"
proof -
  have h: "fresh_run ops_example newBridgeService" by code_simp
  have a: "map fst (pendingRequests (run ops_example newBridgeService)) = [''d'']" by code_simp
  have b: "promises (run ops_example newBridgeService) =
     [Rejected (JError ''Request timeout''), Resolved (JBool True),
      Rejected (JError ''Request timeout''), Pending]" by code_simp
  have c: "map armed (timers (run ops_example newBridgeService)) = [False, False, False, True]"
    by code_simp
  from reachable_consistent[OF h] h a b c show ?thesis by simp
qed

lemma length_dropEntry [simp]:
  "length (promises (dropEntry k r oc s)) = length (promises s)"
  "length (timers (dropEntry k r oc s)) = length (timers s)"
  by (simp_all add: promises_dropEntry timers_dropEntry)


lemma cleanup_loop_pending:
  "pendingRequests (cleanupOldRequests_loop now es s) =
     filter (\<lambda>e'. fst e' \<notin> fst ` {e \<in> set es. expired now e}) (pendingRequests s)"
proof (induction es arbitrary: s)
  case Nil show ?case by simp
next
  case (Cons e es)
  have s: "{x \<in> set (e # es). expired now x} =
      (if expired now e then insert e {x \<in> set es. expired now x} else {x \<in> set es. expired now x})"
    by auto
  show ?case
    unfolding cleanupOldRequests_loop_Cons Cons.IH s
    by (auto simp: expired_def dropEntry_fields intro: filter_cong)
qed

lemma cleanup_loop_promises:
  "p < length (promises s) \<Longrightarrow>
   promises (cleanupOldRequests_loop now es s) ! p =
     (if p \<in> (\<lambda>e. promise (snd e)) ` {e \<in> set es. expired now e} \<and> promises s ! p = Pending
      then Rejected (JError ''Request timeout'') else promises s ! p)"
proof (induction es arbitrary: s)
  case Nil show ?case by simp
next
  case (Cons e es)
  let ?s1 = "if now - timestamp (snd e) > requestTimeout
        then dropEntry (fst e) (snd e) (Rejected (JError ''Request timeout'')) s else s"
  from Cons.prems have lt: "p < length (promises ?s1)" by simp
  have n: "promises ?s1 ! p =
     (if expired now e \<and> p = promise (snd e) \<and> promises s ! p = Pending
      then Rejected (JError ''Request timeout'') else promises s ! p)"
    using Cons.prems by (auto simp: promises_dropEntry expired_def)
  have s: "{x \<in> set (e # es). expired now x} =
      (if expired now e then insert e {x \<in> set es. expired now x} else {x \<in> set es. expired now x})"
    by auto
  show ?case
    unfolding cleanupOldRequests_loop_Cons Cons.IH[OF lt] n s by auto
qed

lemma cleanup_loop_timers:
  "t < length (timers s) \<Longrightarrow>
   timers (cleanupOldRequests_loop now es s) ! t =
     (if t \<in> (\<lambda>e. timeoutId (snd e)) ` {e \<in> set es. expired now e}
      then (timers s ! t)\<lparr>armed := False\<rparr> else timers s ! t)"
proof (induction es arbitrary: s)
  case Nil show ?case by simp
next
  case (Cons e es)
  let ?s1 = "if now - timestamp (snd e) > requestTimeout
        then dropEntry (fst e) (snd e) (Rejected (JError ''Request timeout'')) s else s"
  from Cons.prems have lt: "t < length (timers ?s1)" by simp
  have n: "timers ?s1 ! t =
     (if expired now e \<and> t = timeoutId (snd e)
      then (timers s ! t)\<lparr>armed := False\<rparr> else timers s ! t)"
    using Cons.prems by (auto simp: timers_dropEntry expired_def)
  have s: "{x \<in> set (e # es). expired now x} =
      (if expired now e then insert e {x \<in> set es. expired now x} else {x \<in> set es. expired now x})"
    by auto
  show ?case
    unfolding cleanupOldRequests_loop_Cons Cons.IH[OF lt] n s by auto
qed


subsection \<open>Settled stays settled\<close>

lemma keys_map_set: "fst ` set (map_set m k v) = insert k (fst ` set m)"
proof (induction m)
  case Nil show ?case by simp
next
  case (Cons e m)
  obtain k' v' where e: "e = (k', v')" by (cases e)
  show ?case
  proof (cases "k' = k")
    case True with e show ?thesis by simp
  next
    case False with e Cons.IH show ?thesis by (simp add: insert_commute)
  qed
qed

lemma not_pending_step:
  assumes "\<not> hasPendingRequest (JStr x) s" and "\<not> sends a x"
  shows "\<not> hasPendingRequest (JStr x) (step a s)"
proof (cases "\<exists>k ep d now. a = Send k ep d now")
  case True
  then obtain k ep d now where a: "a = Send k ep d now" by blast
  with assms show ?thesis
    by (simp add: hasPendingRequest_def map_has_str sendRequest_fields keys_map_set)
next
  case False
  then have "\<forall>k. \<not> sends a k" by (cases a) simp_all
  from shrinks_step[OF this, of s] have "set (pendingRequests (step a s)) \<subseteq> set (pendingRequests s)"
    by (simp add: shrinks_def)
  with assms(1) show ?thesis by (auto simp: hasPendingRequest_def map_has_str)
qed

lemma not_pending_run:
  "\<not> hasPendingRequest (JStr x) s \<Longrightarrow> \<forall>a\<in>set ops. \<not> sends a x \<Longrightarrow>
   \<not> hasPendingRequest (JStr x) (run ops s)"
  by (induction ops arbitrary: s) (simp_all add: not_pending_step)

lemma settled_step:
  assumes "p < length (promises s)" and "promises s ! p \<noteq> Pending"
  shows "p < length (promises (step a s)) \<and> promises (step a s) ! p = promises s ! p"
proof (cases "\<exists>k ep d now. a = Send k ep d now")
  case True
  then obtain k ep d now where a: "a = Send k ep d now" by blast
  with assms show ?thesis by (simp add: sendRequest_fields nth_append)
next
  case False
  then have "\<forall>k. \<not> sends a k" by (cases a) simp_all
  from shrinks_step[OF this, of s] assms show ?thesis by (simp add: shrinks_def)
qed

lemma settled_run:
  "p < length (promises s) \<Longrightarrow> promises s ! p \<noteq> Pending \<Longrightarrow>
   p < length (promises (run ops s)) \<and> promises (run ops s) ! p = promises s ! p"
proof (induction ops arbitrary: s)
  case Nil then show ?case by simp
next
  case (Cons a ops)
  from settled_step[OF Cons.prems, of a]
  have 1: "p < length (promises (step a s))" and 2: "promises (step a s) ! p = promises s ! p"
    by simp_all
  from 2 Cons.prems(2) have 3: "promises (step a s) ! p \<noteq> Pending" by simp
  from Cons.IH[OF 1 3] 2 show ?case by simp
qed

lemma not_pending_settle:
  "\<not> hasPendingRequest k s \<Longrightarrow> resolveRequest k v s = (False, s) \<and> rejectRequest k e s = (False, s)"
  by (simp add: hasPendingRequest_def map_has_def resolveRequest_None rejectRequest_None)

text \<open>What settling the pending entry \<open>k \<mapsto> r\<close> leaves behind.\<close>

lemma dropEntry_effect:
  assumes c: "consistent s" and e: "(k, r) \<in> set (pendingRequests s)"
  shows "\<not> hasPendingRequest (JStr k) (dropEntry k r oc s)"
    and "k \<notin> set (requestQueue (dropEntry k r oc s))"
    and "\<not> armed (timers (dropEntry k r oc s) ! timeoutId r)"
    and "promise r < length (promises (dropEntry k r oc s))"
    and "promises (dropEntry k r oc s) ! promise r = oc"
proof -
  let ?s' = "dropEntry k r oc s"
  show 1: "\<not> hasPendingRequest (JStr k) ?s'"
    by (auto simp: hasPendingRequest_def map_has_str dropEntry_fields)
  have "queue_inv ?s'" using consistentD(1)[OF c] by (rule queue_inv_dropEntry)
  then have "requestQueue ?s' = map fst (pendingRequests ?s')" by (simp add: queue_inv_def)
  with 1 show "k \<notin> set (requestQueue ?s')" by (simp add: hasPendingRequest_def map_has_str)
  from consistentD(3)[OF c e] have ok: "entry_ok s (k, r)" .
  from ok show "\<not> armed (timers ?s' ! timeoutId r)" by (simp add: entry_ok_def timers_dropEntry)
  from ok show "promise r < length (promises ?s')" by (simp add: entry_ok_def)
  from ok show "promises ?s' ! promise r = oc" by (simp add: entry_ok_def promises_dropEntry)
qed


subsection \<open>Exactly-once settlement\<close>

lemma dropEntry_once:
  assumes c: "consistent s" and e: "(x, r) \<in> set (pendingRequests s)"
    and later: "\<forall>a\<in>set ops. \<not> sends a x" and oc: "oc \<noteq> Pending"
  shows "\<not> hasPendingRequest (JStr x) (dropEntry x r oc s) \<and>
         x \<notin> set (requestQueue (dropEntry x r oc s)) \<and>
         \<not> armed (timers (dropEntry x r oc s) ! timeoutId r) \<and>
         promises (dropEntry x r oc s) ! promise r = oc \<and>
         resolveRequest (JStr x) v' (run ops (dropEntry x r oc s)) =
           (False, run ops (dropEntry x r oc s)) \<and>
         rejectRequest (JStr x) e' (run ops (dropEntry x r oc s)) =
           (False, run ops (dropEntry x r oc s)) \<and>
         promises (run ops (dropEntry x r oc s)) ! promise r = oc"
proof -
  let ?s1 = "dropEntry x r oc s"
  note eff = dropEntry_effect[OF c e, of oc]
  have np: "\<not> hasPendingRequest (JStr x) (run ops ?s1)"
    using eff(1) later by (rule not_pending_run)
  have st: "promises (run ops ?s1) ! promise r = oc"
    using settled_run[OF eff(4), of ops] eff(5) oc by simp
  from eff np st not_pending_settle[OF np] show ?thesis by simp
qed

text \<open>
  C2. When \<open>resolveRequest(id, v)\<close> (or \<open>rejectRequest(id, e)\<close>) finds the identifier pending,
  it returns true, the identifier is gone from the map and from the queue, the timer is
  cancelled and the promise is resolved with \<open>v\<close> (rejected with \<open>e\<close>). After that, and after
  any later operations that do not register the same identifier again, a further
  \<open>resolveRequest\<close> or \<open>rejectRequest\<close> with that identifier returns false and leaves the
  state as it is, and the promise keeps its outcome.
\<close>

theorem exactly_once_settlement:
  assumes "consistent s" and "map_get (pendingRequests s) k = Some r"
    and "\<forall>a\<in>set ops. \<not> sends a (id_req r)"
  shows "k = JStr (id_req r) \<and>
         fst (resolveRequest k v s) \<and>
         \<not> hasPendingRequest k (snd (resolveRequest k v s)) \<and>
         id_req r \<notin> set (requestQueue (snd (resolveRequest k v s))) \<and>
         \<not> armed (timers (snd (resolveRequest k v s)) ! timeoutId r) \<and>
         promises (snd (resolveRequest k v s)) ! promise r = Resolved v \<and>
         resolveRequest k v' (run ops (snd (resolveRequest k v s))) =
           (False, run ops (snd (resolveRequest k v s))) \<and>
         rejectRequest k e' (run ops (snd (resolveRequest k v s))) =
           (False, run ops (snd (resolveRequest k v s))) \<and>
         promises (run ops (snd (resolveRequest k v s))) ! promise r = Resolved v \<and>
         fst (rejectRequest k e s) \<and>
         \<not> hasPendingRequest k (snd (rejectRequest k e s)) \<and>
         id_req r \<notin> set (requestQueue (snd (rejectRequest k e s))) \<and>
         \<not> armed (timers (snd (rejectRequest k e s)) ! timeoutId r) \<and>
         promises (snd (rejectRequest k e s)) ! promise r = Rejected e \<and>
         resolveRequest k v' (run ops (snd (rejectRequest k e s))) =
           (False, run ops (snd (rejectRequest k e s))) \<and>
         rejectRequest k e' (run ops (snd (rejectRequest k e s))) =
           (False, run ops (snd (rejectRequest k e s))) \<and>
         promises (run ops (snd (rejectRequest k e s))) ! promise r = Rejected e"
proof -
  from assms(2) obtain x where k: "k = JStr x" by (cases k) simp_all
  with assms(2) have in': "(x, r) \<in> set (pendingRequests s)" by (simp add: map_of_SomeD)
  from consistentD(3)[OF assms(1) in'] have x: "id_req r = x" by (simp add: entry_ok_def)
  from assms(3) x have later: "\<forall>a\<in>set ops. \<not> sends a x" by simp
  have rs: "resolveRequest (JStr x) v s = (True, dropEntry x r (Resolved v) s)"
    using resolveRequest_Some[of s x r v] assms(2) k by simp
  have rj: "rejectRequest (JStr x) e s = (True, dropEntry x r (Rejected e) s)"
    using rejectRequest_Some[of s x r e] assms(2) k by simp
  from dropEntry_once[OF assms(1) in' later, of "Resolved v" v' e']
       dropEntry_once[OF assms(1) in' later, of "Rejected e" v' e']
  show ?thesis unfolding k x rs rj by simp
qed

theorem exactly_once_settlement_witness:
  "consistent bridge_example \<and>
   map_get (pendingRequests bridge_example) (JStr ''t2'') = Some request_t2 \<and>
   list_all (\<lambda>a. \<not> sends a ''t2'') ops_later \<and>
   fst (resolveRequest (JStr ''t2'') (JNum 7) bridge_example) \<and>
   promises (snd (resolveRequest (JStr ''t2'') (JNum 7) bridge_example)) ! 1 = Resolved (JNum 7) \<and>
   requestQueue (snd (resolveRequest (JStr ''t2'') (JNum 7) bridge_example)) = [''t1'', ''t3''] \<and>
   rejectRequest (JStr ''t2'') (JStr ''late'')
       (run ops_later (snd (resolveRequest (JStr ''t2'') (JNum 7) bridge_example))) =
     (False, run ops_later (snd (resolveRequest (JStr ''t2'') (JNum 7) bridge_example))) \<and>
   promises (run ops_later (snd (resolveRequest (JStr ''t2'') (JNum 7) bridge_example))) ! 1 =
     Resolved (JNum 7)"
proof -
  have h1: "consistent bridge_example" by code_simp
  have h2: "map_get (pendingRequests bridge_example) (JStr ''t2'') = Some request_t2" by code_simp
  have h3': "list_all (\<lambda>a. \<not> sends a ''t2'') ops_later" by code_simp
  have i: "id_req request_t2 = ''t2''" "promise request_t2 = 1" by (simp_all add: request_t2_def)
  from h3' i have h3: "\<forall>a\<in>set ops_later. \<not> sends a (id_req request_t2)"
    by (simp add: list_all_iff)
  have q: "requestQueue (snd (resolveRequest (JStr ''t2'') (JNum 7) bridge_example)) = [''t1'', ''t3'']"
    by code_simp
  from exactly_once_settlement[OF h1 h2 h3, of "JNum 7" JNull "JStr ''late''" JNull] h1 h2 h3' q i
  show ?thesis by simp
qed


subsection \<open>Timeout: the timer and the sweep\<close>

lemma cleanup_loop_none_expired:
  "\<forall>e\<in>set es. \<not> expired now e \<Longrightarrow> cleanupOldRequests_loop now es s = s"
  by (induction es arbitrary: s)
     (simp_all add: cleanupOldRequests_loop_Cons expired_def del: cleanupOldRequests_loop.simps(2))

lemma pending_unique:
  "consistent s \<Longrightarrow> (k, r) \<in> set (pendingRequests s) \<Longrightarrow> (k, r') \<in> set (pendingRequests s) \<Longrightarrow>
   r' = r"
  using consistentD(2) eq_key_imp_eq_value by fastforce

lemma sweep_effect:
  assumes c: "consistent s" and e: "(k, r) \<in> set (pendingRequests s)"
    and old: "now - timestamp r > requestTimeout"
  shows "\<not> hasPendingRequest (JStr k) (cleanupOldRequests now s)"
    and "k \<notin> set (requestQueue (cleanupOldRequests now s))"
    and "promises (cleanupOldRequests now s) ! promise r = Rejected (JError ''Request timeout'')"
    and "\<not> armed (timers (cleanupOldRequests now s) ! timeoutId r)"
proof -
  let ?s1 = "cleanupOldRequests now s"
  from e old have ex: "(k, r) \<in> {e \<in> set (pendingRequests s). expired now e}"
    by (simp add: expired_def)
  then have kx: "k \<in> fst ` {e \<in> set (pendingRequests s). expired now e}" by force
  show 1: "\<not> hasPendingRequest (JStr k) ?s1"
    unfolding hasPendingRequest_def map_has_str cleanupOldRequests_def cleanup_loop_pending
  proof
    let ?X = "fst ` {e \<in> set (pendingRequests s). expired now e}"
    assume "k \<in> fst ` set (filter (\<lambda>e'. fst e' \<notin> ?X) (pendingRequests s))"
    then obtain e' where "fst e' \<notin> ?X" and "fst e' = k" by auto
    with kx show False by simp
  qed
  have "queue_inv ?s1" using consistent_cleanupOldRequests[OF c] by (rule consistentD(1))
  then have "requestQueue ?s1 = map fst (pendingRequests ?s1)" by (simp add: queue_inv_def)
  with 1 show "k \<notin> set (requestQueue ?s1)" by (simp add: hasPendingRequest_def map_has_str)
  from consistentD(3)[OF c e] have lp: "promise r < length (promises s)"
    and pp: "promises s ! promise r = Pending" and lt: "timeoutId r < length (timers s)"
    by (simp_all add: entry_ok_def)
  from ex have px: "promise r \<in> (\<lambda>e. promise (snd e)) ` {e \<in> set (pendingRequests s). expired now e}"
    by force
  from ex have tx: "timeoutId r \<in> (\<lambda>e. timeoutId (snd e)) ` {e \<in> set (pendingRequests s). expired now e}"
    by force
  show "promises ?s1 ! promise r = Rejected (JError ''Request timeout'')"
    using cleanup_loop_promises[OF lp, of now "pendingRequests s"] px pp
    by (simp add: cleanupOldRequests_def)
  show "\<not> armed (timers ?s1 ! timeoutId r)"
    using cleanup_loop_timers[OF lt, of now "pendingRequests s"] tx
    by (simp add: cleanupOldRequests_def)
qed

lemma sweep_keeps_young:
  assumes c: "consistent s" and e: "(k, r) \<in> set (pendingRequests s)"
    and young: "now - timestamp r \<le> requestTimeout"
  shows "(k, r) \<in> set (pendingRequests (cleanupOldRequests now s))"
proof -
  have "k \<notin> fst ` {e \<in> set (pendingRequests s). expired now e}"
  proof
    assume "k \<in> fst ` {e \<in> set (pendingRequests s). expired now e}"
    then obtain r' where in': "(k, r') \<in> set (pendingRequests s)" and x: "expired now (k, r')"
      by auto
    from pending_unique[OF c e in'] x young show False by (simp add: expired_def)
  qed
  with e show ?thesis by (simp add: cleanupOldRequests_def cleanup_loop_pending)
qed

lemma sweep_after_timer:
  assumes c: "consistent s" and e: "(k, r) \<in> set (pendingRequests s)"
  shows "timers (cleanupOldRequests now' (dropEntry k r oc s)) ! timeoutId r =
         timers (dropEntry k r oc s) ! timeoutId r"
proof -
  let ?s1 = "dropEntry k r oc s"
  from consistentD(3)[OF c e] have lt: "timeoutId r < length (timers ?s1)"
    by (simp add: entry_ok_def)
  have "timeoutId r \<notin> (\<lambda>e. timeoutId (snd e)) ` {e \<in> set (pendingRequests ?s1). expired now' e}"
  proof
    assume "timeoutId r \<in> (\<lambda>e. timeoutId (snd e)) ` {e \<in> set (pendingRequests ?s1). expired now' e}"
    then obtain k' r' where in1: "(k', r') \<in> set (pendingRequests ?s1)"
      and te: "timeoutId r' = timeoutId r" by auto
    from in1 have in': "(k', r') \<in> set (pendingRequests s)" and ne: "k' \<noteq> k"
      by (simp_all add: dropEntry_fields)
    from entries_differ(2)[OF c e in' ne] te show False by simp
  qed
  with cleanup_loop_timers[OF lt, of now' "pendingRequests ?s1"] show ?thesis
    by (simp add: cleanupOldRequests_def)
qed

text \<open>The timers phase rejects every request whose 30 seconds have passed.\<close>

lemma fold_fireTimer_shrinks: "shrinks s (fold (fireTimer now) ts s)"
proof (induction ts arbitrary: s)
  case Nil show ?case by (simp add: shrinks_refl)
next
  case (Cons t ts)
  have "shrinks s (fireTimer now t s)" by (rule shrinks_fireTimer)
  also have "shrinks (fireTimer now t s) (fold (fireTimer now) ts (fireTimer now t s))"
    by (rule Cons.IH)
  finally show ?case by simp
qed

lemma fold_fireTimer_due:
  assumes "consistent s" and "(k, r) \<in> set (pendingRequests s)"
    and "timestamp r + requestTimeout \<le> now" and "timeoutId r \<in> set ts"
  shows "\<not> hasPendingRequest (JStr k) (fold (fireTimer now) ts s) \<and>
         promises (fold (fireTimer now) ts s) ! promise r = Rejected (JError ''Request timeout'')"
  using assms
proof (induction ts arbitrary: s)
  case Nil then show ?case by simp
next
  case (Cons t ts)
  note c = Cons.prems(1) and e = Cons.prems(2) and due = Cons.prems(3)
  let ?s1 = "fireTimer now t s"
  have c1: "consistent ?s1" using c by (rule consistent_fireTimer)
  show ?case
  proof (cases "(k, r) \<in> set (pendingRequests ?s1)")
    case True
    have "t \<noteq> timeoutId r"
    proof
      assume t: "t = timeoutId r"
      from fireTimer_dropEntry[OF c e due] t
      have "?s1 = dropEntry k r (Rejected (JError ''Request timeout'')) s" by simp
      with True show False by (simp add: dropEntry_fields)
    qed
    with Cons.prems(4) have "timeoutId r \<in> set ts" by simp
    from Cons.IH[OF c1 True due this] show ?thesis by simp
  next
    case False
    with e have ne: "?s1 \<noteq> s" by auto
    with fireTimer_cases[OF c, of now t] obtain k' r'
      where in': "(k', r') \<in> set (pendingRequests s)"
        and f: "?s1 = dropEntry k' r' (Rejected (JError ''Request timeout'')) s" by auto
    have same: "k' = k"
    proof (rule ccontr)
      assume "k' \<noteq> k"
      with e f have "(k, r) \<in> set (pendingRequests ?s1)" by (simp add: dropEntry_fields)
      with False show False by simp
    qed
    with pending_unique[OF c e] in' have r': "r' = r" by simp
    note eff = dropEntry_effect[OF c e, of "Rejected (JError ''Request timeout'')"]
    from f same r' have f': "?s1 = dropEntry k r (Rejected (JError ''Request timeout'')) s" by simp
    let ?s2 = "fold (fireTimer now) ts ?s1"
    have sh: "shrinks ?s1 ?s2" by (rule fold_fireTimer_shrinks)
    have "set (pendingRequests ?s2) \<subseteq> set (pendingRequests ?s1)" using sh by (simp add: shrinks_def)
    with eff(1) f' have 1: "\<not> hasPendingRequest (JStr k) ?s2"
      by (auto simp: hasPendingRequest_def map_has_str)
    have 2: "promises ?s2 ! promise r = Rejected (JError ''Request timeout'')"
      using sh eff(4,5) f' by (simp add: shrinks_def)
    from 1 2 show ?thesis by simp
  qed
qed

lemma fireDueTimers_effect:
  assumes c: "consistent s" and e: "(k, r) \<in> set (pendingRequests s)"
    and due: "timestamp r + requestTimeout \<le> now"
  shows "\<not> hasPendingRequest (JStr k) (fireDueTimers now s) \<and>
         promises (fireDueTimers now s) ! promise r = Rejected (JError ''Request timeout'')"
proof -
  from consistentD(3)[OF c e] have "timeoutId r \<in> set [0..<length (timers s)]"
    by (simp add: entry_ok_def)
  from fold_fireTimer_due[OF c e due this] show ?thesis by (simp add: fireDueTimers_def)
qed


text \<open>
  C3. A pending request has a timer set for 30000 ms after its timestamp. Before that time
  the timer does not fire, and a sweep leaves a request that is not older than 30000 ms in
  the map. When the timer fires, or when the timers phase of the event loop runs at or
  after that time, the request is removed from the map and the queue and its promise is
  rejected with \<open>Error('Request timeout')\<close>; a sweep after that finds no such entry, and
  changes neither the promise nor the timer (it changes nothing at all when no other entry
  is old enough). When a sweep finds the request older than 30000 ms it does the same and
  cancels the timer; the timer then never runs its callback, and the callback itself would
  leave the state as it is.
\<close>

theorem timeout_settles_once:
  assumes "consistent s" and "(k, r) \<in> set (pendingRequests s)"
  shows "requestTimeout = 30000 \<and>
         fireAt (timers s ! timeoutId r) = timestamp r + 30000 \<and>
         (early < timestamp r + 30000 \<longrightarrow> fireTimer early (timeoutId r) s = s) \<and>
         (early - timestamp r \<le> 30000 \<longrightarrow>
            (k, r) \<in> set (pendingRequests (cleanupOldRequests early s))) \<and>
         (timestamp r + 30000 \<le> now \<longrightarrow>
            \<not> hasPendingRequest (JStr k) (fireTimer now (timeoutId r) s) \<and>
            k \<notin> set (requestQueue (fireTimer now (timeoutId r) s)) \<and>
            promises (fireTimer now (timeoutId r) s) ! promise r =
              Rejected (JError ''Request timeout'') \<and>
            \<not> hasPendingRequest (JStr k) (fireDueTimers now s) \<and>
            promises (fireDueTimers now s) ! promise r = Rejected (JError ''Request timeout'') \<and>
            \<not> hasPendingRequest (JStr k) (cleanupOldRequests now' (fireTimer now (timeoutId r) s)) \<and>
            promises (cleanupOldRequests now' (fireTimer now (timeoutId r) s)) ! promise r =
              Rejected (JError ''Request timeout'') \<and>
            timers (cleanupOldRequests now' (fireTimer now (timeoutId r) s)) ! timeoutId r =
              timers (fireTimer now (timeoutId r) s) ! timeoutId r \<and>
            ((\<forall>e\<in>set (pendingRequests (fireTimer now (timeoutId r) s)). \<not> expired now' e) \<longrightarrow>
               cleanupOldRequests now' (fireTimer now (timeoutId r) s) =
                 fireTimer now (timeoutId r) s)) \<and>
         (now - timestamp r > 30000 \<longrightarrow>
            \<not> hasPendingRequest (JStr k) (cleanupOldRequests now s) \<and>
            k \<notin> set (requestQueue (cleanupOldRequests now s)) \<and>
            promises (cleanupOldRequests now s) ! promise r =
              Rejected (JError ''Request timeout'') \<and>
            \<not> armed (timers (cleanupOldRequests now s) ! timeoutId r) \<and>
            fireTimer now' (timeoutId r) (cleanupOldRequests now s) = cleanupOldRequests now s \<and>
            timeoutHandler k (promise r) (cleanupOldRequests now s) = cleanupOldRequests now s)"
proof -
  note c = assms(1) and e = assms(2)
  have T: "requestTimeout = 30000" by (simp add: requestTimeout_def)
  from consistentD(3)[OF c e] have tm: "timers s ! timeoutId r =
      \<lparr>t_requestId = k, t_reject = promise r, fireAt = timestamp r + requestTimeout, armed = True\<rparr>"
    by (simp add: entry_ok_def)
  then have a: "fireAt (timers s ! timeoutId r) = timestamp r + 30000" by (simp add: T)
  have b: "early < timestamp r + 30000 \<longrightarrow> fireTimer early (timeoutId r) s = s"
    using a by (simp add: fireTimer_idle)
  have b': "early - timestamp r \<le> 30000 \<longrightarrow>
            (k, r) \<in> set (pendingRequests (cleanupOldRequests early s))"
    using sweep_keeps_young[OF c e, of early] by (simp add: T)
  have t: "\<not> hasPendingRequest (JStr k) (fireTimer now (timeoutId r) s) \<and>
            k \<notin> set (requestQueue (fireTimer now (timeoutId r) s)) \<and>
            promises (fireTimer now (timeoutId r) s) ! promise r =
              Rejected (JError ''Request timeout'') \<and>
            \<not> hasPendingRequest (JStr k) (fireDueTimers now s) \<and>
            promises (fireDueTimers now s) ! promise r = Rejected (JError ''Request timeout'') \<and>
            \<not> hasPendingRequest (JStr k) (cleanupOldRequests now' (fireTimer now (timeoutId r) s)) \<and>
            promises (cleanupOldRequests now' (fireTimer now (timeoutId r) s)) ! promise r =
              Rejected (JError ''Request timeout'') \<and>
            timers (cleanupOldRequests now' (fireTimer now (timeoutId r) s)) ! timeoutId r =
              timers (fireTimer now (timeoutId r) s) ! timeoutId r \<and>
            ((\<forall>e\<in>set (pendingRequests (fireTimer now (timeoutId r) s)). \<not> expired now' e) \<longrightarrow>
               cleanupOldRequests now' (fireTimer now (timeoutId r) s) =
                 fireTimer now (timeoutId r) s)"
    if due: "timestamp r + 30000 \<le> now"
  proof -
    let ?s1 = "fireTimer now (timeoutId r) s"
    let ?oc = "Rejected (JError ''Request timeout'')"
    from due have due': "timestamp r + requestTimeout \<le> now" by (simp add: T)
    have f: "?s1 = dropEntry k r ?oc s" by (rule fireTimer_dropEntry[OF c e due'])
    note eff = dropEntry_effect[OF c e, of ?oc]
    have sh: "shrinks ?s1 (cleanupOldRequests now' ?s1)" by (rule shrinks_cleanupOldRequests)
    then have "set (pendingRequests (cleanupOldRequests now' ?s1)) \<subseteq> set (pendingRequests ?s1)"
      by (simp add: shrinks_def)
    with eff(1) f have 1: "\<not> hasPendingRequest (JStr k) (cleanupOldRequests now' ?s1)"
      by (auto simp: hasPendingRequest_def map_has_str)
    have 2: "promises (cleanupOldRequests now' ?s1) ! promise r = ?oc"
      using sh eff(4,5) f by (simp add: shrinks_def)
    have 3: "timers (cleanupOldRequests now' ?s1) ! timeoutId r = timers ?s1 ! timeoutId r"
      using sweep_after_timer[OF c e, of now' ?oc] f by simp
    have 4: "(\<forall>e\<in>set (pendingRequests ?s1). \<not> expired now' e) \<longrightarrow>
               cleanupOldRequests now' ?s1 = ?s1"
      by (simp add: cleanupOldRequests_def cleanup_loop_none_expired)
    from eff(1,2,5) f fireDueTimers_effect[OF c e due'] 1 2 3 4 show ?thesis by simp
  qed
  have w: "\<not> hasPendingRequest (JStr k) (cleanupOldRequests now s) \<and>
            k \<notin> set (requestQueue (cleanupOldRequests now s)) \<and>
            promises (cleanupOldRequests now s) ! promise r =
              Rejected (JError ''Request timeout'') \<and>
            \<not> armed (timers (cleanupOldRequests now s) ! timeoutId r) \<and>
            fireTimer now' (timeoutId r) (cleanupOldRequests now s) = cleanupOldRequests now s \<and>
            timeoutHandler k (promise r) (cleanupOldRequests now s) = cleanupOldRequests now s"
    if old: "now - timestamp r > 30000"
  proof -
    from old have old': "now - timestamp r > requestTimeout" by (simp add: T)
    note sw = sweep_effect[OF c e old']
    have 1: "fireTimer now' (timeoutId r) (cleanupOldRequests now s) = cleanupOldRequests now s"
      using sw(4) by (simp add: fireTimer_idle)
    have 2: "timeoutHandler k (promise r) (cleanupOldRequests now s) = cleanupOldRequests now s"
      using sw(1) by (simp add: timeoutHandler_def hasPendingRequest_def)
    from sw 1 2 show ?thesis by simp
  qed
  from T a b b' t w show ?thesis by blast
qed

theorem timeout_settles_once_witness:
  "consistent bridge_example \<and> (''t1'', request_t1) \<in> set (pendingRequests bridge_example) \<and>
   fireAt (timers bridge_example ! 0) = 30000 \<and>
   fireTimer 29999 0 bridge_example = bridge_example \<and>
   (''t1'', request_t1) \<in> set (pendingRequests (cleanupOldRequests 29999 bridge_example)) \<and>
   \<not> hasPendingRequest (JStr ''t1'') (fireTimer 30001 0 bridge_example) \<and>
   promises (fireTimer 30001 0 bridge_example) ! 0 = Rejected (JError ''Request timeout'') \<and>
   promises (fireDueTimers 30001 bridge_example) ! 0 = Rejected (JError ''Request timeout'') \<and>
   list_all (\<lambda>e. \<not> expired 30005 e) (pendingRequests (fireTimer 30001 0 bridge_example)) \<and>
   cleanupOldRequests 30005 (fireTimer 30001 0 bridge_example) = fireTimer 30001 0 bridge_example \<and>
   \<not> hasPendingRequest (JStr ''t1'') (cleanupOldRequests 30001 bridge_example) \<and>
   promises (cleanupOldRequests 30001 bridge_example) ! 0 = Rejected (JError ''Request timeout'') \<and>
   fireTimer 30005 0 (cleanupOldRequests 30001 bridge_example) =
     cleanupOldRequests 30001 bridge_example"
proof -
  have h1: "consistent bridge_example" by code_simp
  have h2: "(''t1'', request_t1) \<in> set (pendingRequests bridge_example)" by code_simp
  have i: "timestamp request_t1 = 0" "promise request_t1 = 0" "timeoutId request_t1 = 0"
    by (simp_all add: request_t1_def)
  have h3': "list_all (\<lambda>e. \<not> expired 30005 e) (pendingRequests (fireTimer 30001 0 bridge_example))"
    by code_simp
  then have h3: "\<forall>e\<in>set (pendingRequests (fireTimer 30001 0 bridge_example)). \<not> expired 30005 e"
    by (simp add: list_all_iff)
  from timeout_settles_once[OF h1 h2, of 29999 30001 30005] h1 h2 h3 h3' i
  show ?thesis by simp
qed

subsection \<open>Disconnect\<close>

text \<open>
  C5. In every state \<open>clearAllPendingRequests\<close> leaves the map and the queue empty, so the
  pending count is 0 and \<open>getPendingRequest\<close> returns null; \<open>POST /disconnect\<close> marks the
  plugin as not connected, clears the bridge in this way and answers \<open>{success: true}\<close>.
  In a consistent state every request that was pending has its timer cancelled and its
  promise rejected with \<open>Error('Connection closed')\<close>.
\<close>

theorem disconnect_clears_all:
  "pendingRequests (clearAllPendingRequests s) = [] \<and>
   requestQueue (clearAllPendingRequests s) = [] \<and>
   getPendingCount (clearAllPendingRequests s) = 0 \<and>
   getPendingRequest (clearAllPendingRequests s) = (None, clearAllPendingRequests s) \<and>
   post_disconnect c s =
     (Reply 200 (JObj [(''success'', JBool True)]), c\<lparr>pluginConnected := False\<rparr>,
      clearAllPendingRequests s) \<and>
   \<not> isPluginConnected now (fst (snd (post_disconnect c s))) \<and>
   (consistent s \<longrightarrow>
      (\<forall>e\<in>set (pendingRequests s).
         promises (clearAllPendingRequests s) ! promise (snd e) =
           Rejected (JError ''Connection closed'') \<and>
         \<not> armed (timers (clearAllPendingRequests s) ! timeoutId (snd e))))"
proof -
  let ?s' = "clearAllPendingRequests s"
  have 1: "pendingRequests ?s' = []" and 2: "requestQueue ?s' = []"
    by (simp_all add: clearAllPendingRequests_def)
  have 3: "getPendingCount ?s' = 0" using 1 by (simp add: getPendingCount_def)
  have 4: "getPendingRequest ?s' = (None, ?s')"
    using getPendingRequest_inv[OF queue_inv_clearAll, of s] 1 by simp
  have 5: "post_disconnect c s =
     (Reply 200 (JObj [(''success'', JBool True)]), c\<lparr>pluginConnected := False\<rparr>, ?s')"
    by (simp add: post_disconnect_def)
  have 6: "\<not> isPluginConnected now (fst (snd (post_disconnect c s)))"
    by (simp add: post_disconnect_def isPluginConnected_def)
  have 7: "promises ?s' ! promise (snd e) = Rejected (JError ''Connection closed'') \<and>
         \<not> armed (timers ?s' ! timeoutId (snd e))"
    if c: "consistent s" and e: "e \<in> set (pendingRequests s)" for e
  proof -
    from consistentD(3)[OF c e] have lp: "promise (snd e) < length (promises s)"
      and pp: "promises s ! promise (snd e) = Pending"
      and lt: "timeoutId (snd e) < length (timers s)" by (simp_all add: entry_ok_def)
    from clearAll_loop_promises[OF lp, of "pendingRequests s"] e pp
    have "promises ?s' ! promise (snd e) = Rejected (JError ''Connection closed'')"
      by (simp add: clearAllPendingRequests_def)
    moreover from clearAll_loop_timers[OF lt, of "pendingRequests s"] e
    have "\<not> armed (timers ?s' ! timeoutId (snd e))"
      by (simp add: clearAllPendingRequests_def)
    ultimately show ?thesis by simp
  qed
  from 1 2 3 4 5 6 7 show ?thesis by blast
qed

theorem disconnect_clears_all_witness:
  "consistent bridge_example \<and>
   map (\<lambda>e. promise (snd e)) (pendingRequests bridge_example) = [0, 1, 2] \<and>
   promises bridge_example = [Pending, Pending, Pending] \<and>
   promises (clearAllPendingRequests bridge_example) =
     [Rejected (JError ''Connection closed''), Rejected (JError ''Connection closed''),
      Rejected (JError ''Connection closed'')] \<and>
   map armed (timers (clearAllPendingRequests bridge_example)) = [False, False, False] \<and>
   getPendingCount (clearAllPendingRequests bridge_example) = 0 \<and>
   fst (getPendingRequest (clearAllPendingRequests bridge_example)) = None \<and>
   fst (post_disconnect initialConnectionState bridge_example) =
     Reply 200 (JObj [(''success'', JBool True)])"
proof -
  have h1: "consistent bridge_example" by code_simp
  have a: "map (\<lambda>e. promise (snd e)) (pendingRequests bridge_example) = [0, 1, 2]" by code_simp
  have b: "promises bridge_example = [Pending, Pending, Pending]" by code_simp
  have c: "promises (clearAllPendingRequests bridge_example) =
     [Rejected (JError ''Connection closed''), Rejected (JError ''Connection closed''),
      Rejected (JError ''Connection closed'')]" by code_simp
  have d: "map armed (timers (clearAllPendingRequests bridge_example)) = [False, False, False]"
    by code_simp
  from disconnect_clears_all[of bridge_example initialConnectionState 0] h1 a b c d
  show ?thesis by simp
qed


subsection \<open>Batch settlement\<close>

lemma map_delete_filter: "map_delete m k = filter (\<lambda>e. JStr (fst e) \<noteq> k) m"
  by (cases k) simp_all

lemma map_delete_absent: "map_get m k = None \<Longrightarrow> map_delete m k = m"
proof (cases k)
  case (JStr x)
  assume "map_get m k = None"
  with JStr have "x \<notin> fst ` set m" by (simp add: map_of_eq_None_iff)
  then have "filter (\<lambda>e. fst e \<noteq> x) m = m" by (auto simp: filter_id_conv)
  with JStr show ?thesis by simp
qed simp_all

lemma settleEntry_cases:
  "(map_get (pendingRequests s) (requestId resp) = None \<and> settleEntry resp s = (False, s)) \<or>
   (\<exists>x r. requestId resp = JStr x \<and> map_get (pendingRequests s) (JStr x) = Some r \<and>
      settleEntry resp s =
        (True, dropEntry x r (if truthy (error resp) then Rejected (error resp)
                              else Resolved (response resp)) s))"
proof (cases "map_get (pendingRequests s) (requestId resp)")
  case None
  then show ?thesis by (simp add: settleEntry_def resolveRequest_None rejectRequest_None)
next
  case (Some r)
  then obtain x where k: "requestId resp = JStr x" by (cases "requestId resp") simp_all
  from Some k have m: "map_get (pendingRequests s) (JStr x) = Some r" by simp
  have "settleEntry resp s =
        (True, dropEntry x r (if truthy (error resp) then Rejected (error resp)
                              else Resolved (response resp)) s)"
    using resolveRequest_Some[OF m, of "response resp"] rejectRequest_Some[OF m, of "error resp"] k
    by (simp add: settleEntry_def)
  with k m show ?thesis by blast
qed

lemma fst_settleEntry: "fst (settleEntry resp s) = hasPendingRequest (requestId resp) s"
  using settleEntry_cases[of s resp] by (auto simp: hasPendingRequest_def map_has_def)

lemma pending_settleEntry:
  "pendingRequests (snd (settleEntry resp s)) = map_delete (pendingRequests s) (requestId resp)"
  using settleEntry_cases[of s resp] by (auto simp: map_delete_absent dropEntry_fields)

lemma map_get_filter:
  "map_get (filter (\<lambda>e. JStr (fst e) \<noteq> k) m) k' = (if k' = k then None else map_get m k')"
proof (cases k')
  case (JStr y)
  have "map_of (filter (\<lambda>e. JStr (fst e) \<noteq> k) m) y = (if JStr y = k then None else map_of m y)"
    by (induction m) auto
  with JStr show ?thesis by simp
qed simp_all

lemma has_settleEntry:
  "hasPendingRequest x (snd (settleEntry resp s)) =
     (hasPendingRequest x s \<and> x \<noteq> requestId resp)"
  by (simp add: hasPendingRequest_def map_has_def pending_settleEntry map_delete_filter map_get_filter)

lemma length_filter_upt_Suc:
  "length (filter P [0..<Suc n]) = (if P 0 then 1 else 0) + length (filter (\<lambda>i. P (Suc i)) [0..<n])"
proof -
  have "[0..<Suc n] = 0 # map Suc [0..<n]" by (simp add: upt_conv_Cons map_Suc_upt del: upt_Suc)
  then show ?thesis by (simp add: filter_map comp_def del: upt_Suc)
qed

text \<open>An entry is not found when its identifier is not pending or stood earlier in the batch.\<close>

lemma loop_notFound:
  "snd (fst (resolveRequests_loop rs a b s)) =
     b + length (filter (\<lambda>i. \<not> hasPendingRequest (map requestId rs ! i) s \<or>
                              map requestId rs ! i \<in> set (take i (map requestId rs)))
                   [0..<length rs])"
proof (induction rs arbitrary: a b s)
  case Nil show ?case by simp
next
  case (Cons resp rs)
  let ?k = "requestId resp" and ?ids = "map requestId rs"
  let ?s1 = "snd (settleEntry resp s)"
  let ?P1 = "\<lambda>i. \<not> hasPendingRequest (?ids ! i) ?s1 \<or> ?ids ! i \<in> set (take i ?ids)"
  let ?P = "\<lambda>i. \<not> hasPendingRequest ((?k # ?ids) ! i) s \<or> (?k # ?ids) ! i \<in> set (take i (?k # ?ids))"
  have eq: "?P1 i = ?P (Suc i)" for i
    by (auto simp: has_settleEntry)
  have P0: "?P 0 = (\<not> hasPendingRequest ?k s)" by simp
  have "snd (fst (resolveRequests_loop (resp # rs) a b s)) =
        (if fst (settleEntry resp s) then b else b + 1) + length (filter ?P1 [0..<length rs])"
    by (simp only: resolveRequests_loop_Cons Cons.IH)
  also have "\<dots> = b + ((if ?P 0 then 1 else 0) + length (filter (\<lambda>i. ?P (Suc i)) [0..<length rs]))"
    by (simp only: eq P0 fst_settleEntry) simp
  also have "\<dots> = b + length (filter ?P [0..<Suc (length rs)])"
    by (simp only: length_filter_upt_Suc)
  finally show ?case by simp
qed

lemma loop_sum:
  "fst (fst (resolveRequests_loop rs a b s)) + snd (fst (resolveRequests_loop rs a b s)) =
     a + b + length rs"
proof (induction rs arbitrary: a b s)
  case Nil show ?case by simp
next
  case (Cons resp rs)
  show ?case by (simp only: resolveRequests_loop_Cons Cons.IH) simp
qed

lemma loop_pending:
  "pendingRequests (snd (resolveRequests_loop rs a b s)) =
     filter (\<lambda>e. JStr (fst e) \<notin> set (map requestId rs)) (pendingRequests s)"
proof (induction rs arbitrary: a b s)
  case Nil show ?case by simp
next
  case (Cons resp rs)
  show ?case
    by (simp only: resolveRequests_loop_Cons Cons.IH pending_settleEntry map_delete_filter)
       (auto intro: filter_cong)
qed

lemma loop_counters:
  "resolveRequests_loop rs a b s =
     ((a + fst (fst (resolveRequests_loop rs 0 0 s)), b + snd (fst (resolveRequests_loop rs 0 0 s))),
      snd (resolveRequests_loop rs 0 0 s))"
proof (induction rs arbitrary: a b s)
  case Nil show ?case by simp
next
  case (Cons resp rs)
  let ?ok = "fst (settleEntry resp s)" and ?s1 = "snd (settleEntry resp s)"
  have 1: "resolveRequests_loop (resp # rs) a b s =
      resolveRequests_loop rs (if ?ok then a + 1 else a) (if ?ok then b else b + 1) ?s1"
    by (simp only: resolveRequests_loop_Cons)
  have 2: "resolveRequests_loop (resp # rs) 0 0 s =
      resolveRequests_loop rs (if ?ok then 0 + 1 else 0) (if ?ok then 0 else 0 + 1) ?s1"
    by (simp only: resolveRequests_loop_Cons)
  show ?case
    unfolding 1 2
    by (subst Cons.IH, subst (2 3 4) Cons.IH) simp
qed

lemma loop_append:
  "resolveRequests_loop (rs @ rs') a b s =
     resolveRequests_loop rs' (fst (fst (resolveRequests_loop rs a b s)))
       (snd (fst (resolveRequests_loop rs a b s))) (snd (resolveRequests_loop rs a b s))"
proof (induction rs arbitrary: a b s)
  case Nil show ?case by simp
next
  case (Cons resp rs)
  show ?case by (simp only: append_Cons resolveRequests_loop_Cons Cons.IH)
qed

lemma loop_first_occurrence:
  assumes "consistent s" and "requestId resp \<notin> set (map requestId pre)"
    and "map_get (pendingRequests s) (requestId resp) = Some r"
  shows "promises (snd (resolveRequests_loop (pre @ resp # post) a b s)) ! promise r =
           (if truthy (error resp) then Rejected (error resp) else Resolved (response resp))"
  using assms
proof (induction pre arbitrary: a b s)
  case Nil
  let ?oc = "if truthy (error resp) then Rejected (error resp) else Resolved (response resp)"
  from settleEntry_cases[of s resp] Nil.prems(3) obtain x
    where k: "requestId resp = JStr x" and m: "map_get (pendingRequests s) (JStr x) = Some r"
      and se: "settleEntry resp s = (True, dropEntry x r ?oc s)" by auto
  from m have in': "(x, r) \<in> set (pendingRequests s)" by (simp add: map_of_SomeD)
  note eff = dropEntry_effect[OF Nil.prems(1) in', of ?oc]
  let ?s1 = "dropEntry x r ?oc s"
  have sh: "shrinks ?s1 (snd (resolveRequests_loop post (a + 1) b ?s1))"
    by (rule shrinks_resolveRequests_loop)
  have ne: "?oc \<noteq> Pending" by simp
  have "promises (snd (resolveRequests_loop post (a + 1) b ?s1)) ! promise r = ?oc"
    using sh eff(4,5) ne unfolding shrinks_def by metis
  then show ?case by (simp only: append_Nil resolveRequests_loop_Cons se fst_conv snd_conv if_True)
next
  case (Cons resp0 pre)
  let ?s1 = "snd (settleEntry resp0 s)"
  have c1: "consistent ?s1" using Cons.prems(1) by (rule consistent_settleEntry)
  from Cons.prems(2) have ne: "requestId resp \<noteq> requestId resp0"
    and ni: "requestId resp \<notin> set (map requestId pre)" by auto
  have m1: "map_get (pendingRequests ?s1) (requestId resp) = Some r"
    using Cons.prems(3) ne by (simp add: pending_settleEntry map_delete_filter map_get_filter)
  show ?case
    by (simp only: append_Cons resolveRequests_loop_Cons Cons.IH[OF c1 ni m1])
qed


text \<open>
  C4 (as amended). \<open>resolveRequests\<close> returns a tally for every list of entries (no
  identifier makes it fail). The entries are processed in the order given: a batch
  \<open>rs @ rs'\<close> is the batch \<open>rs\<close> followed by the batch \<open>rs'\<close>, and a batch of one entry is
  one call of \<open>rejectRequest\<close> when the entry's \<open>error\<close> is truthy and one call of
  \<open>resolveRequest\<close> otherwise. \<open>notFound\<close> counts the entries whose identifier is not
  pending when their turn comes, that is: not pending at the start, or already settled by
  an earlier entry of the batch; \<open>resolved\<close> counts the others, and the two add up to the
  number of entries. Afterwards no identifier of the batch is pending, and the other
  entries of the map are untouched. In a consistent state the promise of a pending request
  is settled by the first entry that names it: rejected with that entry's \<open>error\<close> if it is
  truthy, and resolved with its \<open>response\<close> otherwise, also when the entry carries an
  \<open>error\<close> that is falsy, such as the empty string.
\<close>

theorem batch_partial_success:
  "snd (fst (resolveRequests rs s)) =
     length (filter (\<lambda>i. \<not> hasPendingRequest (map requestId rs ! i) s \<or>
                           map requestId rs ! i \<in> set (take i (map requestId rs)))
               [0..<length rs]) \<and>
   fst (fst (resolveRequests rs s)) + snd (fst (resolveRequests rs s)) = length rs \<and>
   pendingRequests (snd (resolveRequests rs s)) =
     filter (\<lambda>e. JStr (fst e) \<notin> set (map requestId rs)) (pendingRequests s) \<and>
   resolveRequests (rs @ rs') s =
     ((fst (fst (resolveRequests rs s)) + fst (fst (resolveRequests rs' (snd (resolveRequests rs s)))),
       snd (fst (resolveRequests rs s)) + snd (fst (resolveRequests rs' (snd (resolveRequests rs s))))),
      snd (resolveRequests rs' (snd (resolveRequests rs s)))) \<and>
   resolveRequests [resp] s =
     (if hasPendingRequest (requestId resp) s then (1, 0) else (0, 1),
      snd (if truthy (error resp) then rejectRequest (requestId resp) (error resp) s
           else resolveRequest (requestId resp) (response resp) s)) \<and>
   (consistent s \<longrightarrow>
      (\<forall>pre ent post r.
         rs = pre @ ent # post \<longrightarrow> requestId ent \<notin> set (map requestId pre) \<longrightarrow>
         map_get (pendingRequests s) (requestId ent) = Some r \<longrightarrow>
         promises (snd (resolveRequests rs s)) ! promise r =
           (if truthy (error ent) then Rejected (error ent) else Resolved (response ent))))"
proof -
  have 1: "snd (fst (resolveRequests rs s)) =
     length (filter (\<lambda>i. \<not> hasPendingRequest (map requestId rs ! i) s \<or>
                           map requestId rs ! i \<in> set (take i (map requestId rs)))
               [0..<length rs])"
    using loop_notFound[of rs 0 0 s] by (simp add: resolveRequests_def)
  have 2: "fst (fst (resolveRequests rs s)) + snd (fst (resolveRequests rs s)) = length rs"
    using loop_sum[of rs 0 0 s] by (simp add: resolveRequests_def)
  have 3: "pendingRequests (snd (resolveRequests rs s)) =
     filter (\<lambda>e. JStr (fst e) \<notin> set (map requestId rs)) (pendingRequests s)"
    using loop_pending[of rs 0 0 s] by (simp add: resolveRequests_def)
  have 4: "resolveRequests (rs @ rs') s =
     ((fst (fst (resolveRequests rs s)) + fst (fst (resolveRequests rs' (snd (resolveRequests rs s)))),
       snd (fst (resolveRequests rs s)) + snd (fst (resolveRequests rs' (snd (resolveRequests rs s))))),
      snd (resolveRequests rs' (snd (resolveRequests rs s))))"
    unfolding resolveRequests_def loop_append[of rs rs' 0 0 s]
    by (rule loop_counters)
  have 5: "resolveRequests [resp] s =
     (if hasPendingRequest (requestId resp) s then (1, 0) else (0, 1),
      snd (if truthy (error resp) then rejectRequest (requestId resp) (error resp) s
           else resolveRequest (requestId resp) (response resp) s))"
    using fst_settleEntry[of resp s]
    by (simp add: resolveRequests_def resolveRequests_loop_Cons settleEntry_def
          del: resolveRequests_loop.simps(2))
  have 6: "promises (snd (resolveRequests rs s)) ! promise r =
           (if truthy (error ent) then Rejected (error ent) else Resolved (response ent))"
    if "consistent s" and "rs = pre @ ent # post" and "requestId ent \<notin> set (map requestId pre)"
      and "map_get (pendingRequests s) (requestId ent) = Some r" for pre ent post r
    using loop_first_occurrence[OF that(1,3,4), of post 0 0] that(2)
    by (simp add: resolveRequests_def)
  from 1 2 3 4 5 6 show ?thesis by blast
qed

theorem batch_partial_success_witness:
  "consistent bridge_example \<and>
   map_get (pendingRequests bridge_example) (requestId batch_error) = Some request_t2 \<and>
   requestId batch_error \<notin> set (map requestId [batch_ok, batch_invalid]) \<and>
   fst (resolveRequests [batch_ok, batch_invalid, batch_error] bridge_example) = (2, 1) \<and>
   promises (snd (resolveRequests [batch_ok, batch_invalid, batch_error] bridge_example)) ! 1 =
     Rejected (JStr ''Test error'') \<and>
   promises (snd (resolveRequests [batch_ok, batch_invalid, batch_error] bridge_example)) ! 0 =
     Resolved (JObj [(''ok'', JNum 1)]) \<and>
   map fst (pendingRequests (snd (resolveRequests [batch_ok, batch_invalid, batch_error]
     bridge_example))) = [''t3'']"
proof -
  have h1: "consistent bridge_example" by code_simp
  have h2: "map_get (pendingRequests bridge_example) (requestId batch_error) = Some request_t2"
    by code_simp
  have h3: "requestId batch_error \<notin> set (map requestId [batch_ok, batch_invalid])"
    by (simp add: batch_error_def batch_ok_def batch_invalid_def)
  have a: "fst (resolveRequests [batch_ok, batch_invalid, batch_error] bridge_example) = (2, 1)"
    by code_simp
  have b: "promises (snd (resolveRequests [batch_ok, batch_invalid, batch_error] bridge_example)) ! 0 =
     Resolved (JObj [(''ok'', JNum 1)])" by code_simp
  have c: "map fst (pendingRequests (snd (resolveRequests [batch_ok, batch_invalid, batch_error]
     bridge_example))) = [''t3'']" by code_simp
  have i: "promise request_t2 = 1" "truthy (error batch_error)" "error batch_error = JStr ''Test error''"
    by (simp_all add: request_t2_def batch_error_def)
  have d: "promises (snd (resolveRequests [batch_ok, batch_invalid, batch_error] bridge_example)) ! 1 =
     Rejected (JStr ''Test error'')"
  proof -
    note all = batch_partial_success[of "[batch_ok, batch_invalid, batch_error]" bridge_example
        "[]" batch_ok, THEN conjunct2, THEN conjunct2, THEN conjunct2, THEN conjunct2,
        THEN conjunct2, THEN mp, OF h1]
    from all[rule_format, of "[batch_ok, batch_invalid]" batch_error "[]" request_t2] h2 h3 i
    show ?thesis by simp
  qed
  from h1 h2 h3 a b c d show ?thesis by simp
qed


text \<open>
  The claim as stated (an entry with an error rejects) fails for an error that is the empty
  string: the test \<open>if (resp.error)\<close> takes it for no error, and the pending request is
  resolved, with the entry's \<open>response\<close>, here \<open>undefined\<close>.
\<close>

theorem batch_empty_error_counterexample:
  "hasPendingRequest (requestId batch_empty_error) bridge_example \<and>
   error batch_empty_error = JStr [] \<and>
   response batch_empty_error = JUndefined \<and>
   map_get (pendingRequests bridge_example) (requestId batch_empty_error) = Some request_t1 \<and>
   promises bridge_example ! promise request_t1 = Pending \<and>
   fst (resolveRequests [batch_empty_error] bridge_example) = (1, 0) \<and>
   promises (snd (resolveRequests [batch_empty_error] bridge_example)) ! promise request_t1 =
     Resolved JUndefined \<and>
   promises (snd (resolveRequests [batch_empty_error] bridge_example)) ! promise request_t1 \<noteq>
     Rejected (error batch_empty_error)"
proof -
  have 1: "hasPendingRequest (requestId batch_empty_error) bridge_example" by code_simp
  have 2: "error batch_empty_error = JStr []" "response batch_empty_error = JUndefined"
    by (simp_all add: batch_empty_error_def)
  have 3: "map_get (pendingRequests bridge_example) (requestId batch_empty_error) = Some request_t1"
    by code_simp
  have 4: "promises bridge_example ! promise request_t1 = Pending" by code_simp
  have 5: "fst (resolveRequests [batch_empty_error] bridge_example) = (1, 0)" by code_simp
  have 6: "promises (snd (resolveRequests [batch_empty_error] bridge_example)) ! promise request_t1 =
     Resolved JUndefined" by code_simp
  from 1 2 3 4 5 6 show ?thesis by simp
qed


subsection \<open>Dispatcher liveness\<close>

text \<open>
  C9. The file \<open>http-server.ts\<close> computes \<open>isMCPServerActive\<close> as the flag and
  \<open>now - lastMCPActivity < 15000\<close>; the other server file computes it as the flag alone.
  The two disagree exactly when the flag is set and the last activity is 15000 ms old or
  older; such a state is reached by \<open>setMCPServerActive(true)\<close> at any time \<open>t0\<close>, read at
  \<open>t0 + 15000\<close> or later.
\<close>

theorem liveness_variants_differ:
  "isMCPServerActive_v1 now c = (mcpServerActive c \<and> now - lastMCPActivity c < 15000) \<and>
   isMCPServerActive_v2 c = mcpServerActive c \<and>
   (isMCPServerActive_v1 now c \<noteq> isMCPServerActive_v2 c) =
     (mcpServerActive c \<and> 15000 \<le> now - lastMCPActivity c) \<and>
   isMCPServerActive_v2 (setMCPServerActive True t0 c) \<and>
   \<not> isMCPServerActive_v1 (t0 + 15000 + int d) (setMCPServerActive True t0 c) \<and>
   isMCPServerActive_v2 (setMCPServerActive True 0 initialConnectionState) \<and>
   \<not> isMCPServerActive_v1 16000 (setMCPServerActive True 0 initialConnectionState) \<and>
   isMCPServerActive_v1 14999 (setMCPServerActive True 0 initialConnectionState)"
  by (auto simp: isMCPServerActive_v1_def isMCPServerActive_v2_def setMCPServerActive_def
        initialConnectionState_def)

subsection \<open>Polling\<close>

text \<open>
  C7 (as amended). A \<open>GET /poll\<close> while the dispatcher is not live marks the plugin as
  connected with the current time as its last activity, answers 503 with
  \<open>mcpConnected: false\<close> and no work (\<open>requests: []\<close> in the batch server, \<open>request: null\<close>
  in \<open>http-server.ts\<close>), and leaves the bridge as it is; nothing else of the connection
  state changes.
\<close>

theorem poll_gated_on_liveness:
  "(\<not> isMCPServerActive_v2 c \<longrightarrow>
      get_poll_v2 now q env c s =
        (Reply 503 (JObj [(''error'', JStr ''MCP server not connected''),
                          (''pluginConnected'', JBool True),
                          (''mcpConnected'', JBool False),
                          (''requests'', JArr [])]),
         c\<lparr>pluginConnected := True, lastPluginActivity := now\<rparr>, s) \<and>
      isPluginConnected now (fst (snd (get_poll_v2 now q env c s)))) \<and>
   (\<not> isMCPServerActive_v1 now c \<longrightarrow>
      get_poll_v1 now c s =
        (Reply 503 (JObj [(''error'', JStr ''MCP server not connected''),
                          (''pluginConnected'', JBool True),
                          (''mcpConnected'', JBool False),
                          (''request'', JNull)]),
         c\<lparr>pluginConnected := True, lastPluginActivity := now\<rparr>, s) \<and>
      isPluginConnected now (fst (snd (get_poll_v1 now c s))))"
  by (simp add: get_poll_v2_def get_poll_v1_def isMCPServerActive_v2_def isMCPServerActive_v1_def
        isPluginConnected_def Let_def)

theorem poll_gated_on_liveness_witness:
  "\<not> isMCPServerActive_v2 initialConnectionState \<and>
   \<not> isMCPServerActive_v1 5 initialConnectionState \<and>
   get_poll_v2 5 \<lparr>q_longPoll = JUndefined, q_maxWait = None, q_maxBatch = None\<rparr> []
       initialConnectionState bridge_example =
     (Reply 503 (JObj [(''error'', JStr ''MCP server not connected''),
                       (''pluginConnected'', JBool True),
                       (''mcpConnected'', JBool False),
                       (''requests'', JArr [])]),
      initialConnectionState\<lparr>pluginConnected := True, lastPluginActivity := 5\<rparr>,
      bridge_example) \<and>
   snd (snd (get_poll_v1 5 initialConnectionState bridge_example)) = bridge_example"
proof -
  have h1: "\<not> isMCPServerActive_v2 initialConnectionState"
    by (simp add: isMCPServerActive_v2_def initialConnectionState_def)
  have h2: "\<not> isMCPServerActive_v1 5 initialConnectionState"
    by (simp add: isMCPServerActive_v1_def initialConnectionState_def)
  from poll_gated_on_liveness[of initialConnectionState 5
      "\<lparr>q_longPoll = JUndefined, q_maxWait = None, q_maxBatch = None\<rparr>" "[]" bridge_example]
    h1 h2 show ?thesis by simp
qed

text \<open>
  The claim as stated fails on \<open>http-server.ts\<close>: its 503 body has \<open>request: null\<close> and no
  \<open>requests\<close> array.
\<close>

theorem poll_v1_counterexample:
  "\<not> isMCPServerActive_v1 5 initialConnectionState \<and>
   fst (get_poll_v1 5 initialConnectionState bridge_example) =
     Reply 503 (JObj [(''error'', JStr ''MCP server not connected''),
                      (''pluginConnected'', JBool True),
                      (''mcpConnected'', JBool False),
                      (''request'', JNull)]) \<and>
   getProp (JObj [(''error'', JStr ''MCP server not connected''),
                  (''pluginConnected'', JBool True),
                  (''mcpConnected'', JBool False),
                  (''request'', JNull)]) ''requests'' = JUndefined"
  by (simp add: get_poll_v1_def isMCPServerActive_v1_def initialConnectionState_def Let_def)


subsection \<open>\<open>POST /response\<close>\<close>








subsection \<open>Long polling\<close>

declare waitForRequests_loop.simps [simp del]

lemma getPendingRequests_length: "length (fst (getPendingRequests maxCount s)) \<le> nat maxCount"
proof -
  have "fst (getPendingRequests maxCount s) =
        fst (getPendingRequests_scan (pendingRequests s) maxCount (requestQueue s) 0 [] [])"
    by (simp add: getPendingRequests_def split_beta)
  then show ?thesis by (simp add: getPendingRequests_scan_results)
qed

lemma wait_elapsed:
  "maxWaitMs \<le> now - startTime \<Longrightarrow>
   waitForRequests_loop startTime maxWaitMs maxBatchSize now env s = ([], s)"
  by (subst waitForRequests_loop.simps) simp

lemma wait_found:
  "now - startTime < maxWaitMs \<Longrightarrow> fst (getPendingRequests maxBatchSize s) \<noteq> [] \<Longrightarrow>
   waitForRequests_loop startTime maxWaitMs maxBatchSize now env s =
     getPendingRequests maxBatchSize s"
  by (subst waitForRequests_loop.simps) (simp add: split_beta)

lemma wait_sleep_quiet:
  "now - startTime < maxWaitMs \<Longrightarrow> fst (getPendingRequests maxBatchSize s) = [] \<Longrightarrow>
   waitForRequests_loop startTime maxWaitMs maxBatchSize now [] s =
     waitForRequests_loop startTime maxWaitMs maxBatchSize (now + 50) []
       (snd (getPendingRequests maxBatchSize s))"
  by (subst waitForRequests_loop.simps) (simp add: split_beta pollInterval_def)

lemma wait_sleep:
  "now - startTime < maxWaitMs \<Longrightarrow> fst (getPendingRequests maxBatchSize s) = [] \<Longrightarrow>
   waitForRequests_loop startTime maxWaitMs maxBatchSize now ((late, ops) # env) s =
     waitForRequests_loop startTime maxWaitMs maxBatchSize (now + 50 + int late) env
       (run ops (snd (getPendingRequests maxBatchSize s)))"
  by (subst waitForRequests_loop.simps) (simp add: split_beta pollInterval_def)

lemma wait_result:
  "fst (waitForRequests_loop startTime maxWaitMs maxBatchSize now env s) = [] \<or>
   int (length (fst (waitForRequests_loop startTime maxWaitMs maxBatchSize now env s)))
     \<le> maxBatchSize"
proof (induction startTime maxWaitMs maxBatchSize now env s rule: waitForRequests_loop.induct)
  case (1 startTime maxWaitMs maxBatchSize now env s)
  show ?case
  proof (cases "now - startTime < maxWaitMs")
    case False
    then show ?thesis by (simp add: wait_elapsed)
  next
    case True
    obtain requests s' where g: "getPendingRequests maxBatchSize s = (requests, s')"
      by (cases "getPendingRequests maxBatchSize s")
    show ?thesis
    proof (cases "requests = []")
      case False
      from getPendingRequests_length[of maxBatchSize s] g
      have "length requests \<le> nat maxBatchSize" by simp
      with False have "int (length requests) \<le> maxBatchSize" by (cases requests) auto
      with True False g show ?thesis by (simp add: wait_found)
    next
      case e: True
      show ?thesis
      proof (cases env)
        case Nil
        from "1.IH"(1)[OF True g[symmetric] _ Nil] e
        have "fst (waitForRequests_loop startTime maxWaitMs maxBatchSize (now + pollInterval) [] s') = [] \<or>
              int (length (fst (waitForRequests_loop startTime maxWaitMs maxBatchSize
                (now + pollInterval) [] s'))) \<le> maxBatchSize" by simp
        with True e g Nil show ?thesis by (simp add: wait_sleep_quiet pollInterval_def)
      next
        case (Cons sl env')
        obtain late ops where sl: "sl = (late, ops)" by (cases sl)
        from "1.IH"(2)[OF True g[symmetric] _ Cons sl[symmetric]] e
        have "fst (waitForRequests_loop startTime maxWaitMs maxBatchSize
                (now + pollInterval + int late) env' (run ops s')) = [] \<or>
              int (length (fst (waitForRequests_loop startTime maxWaitMs maxBatchSize
                (now + pollInterval + int late) env' (run ops s')))) \<le> maxBatchSize" by simp
        with True e g Cons sl show ?thesis by (simp add: wait_sleep pollInterval_def)
      qed
    qed
  qed
qed

text \<open>The loop sleeps at most once per 50 ms of the wait that remains.\<close>

lemma wait_bounded:
  "startTime + maxWaitMs - now \<le> 50 * int n \<Longrightarrow>
   waitForRequests_loop startTime maxWaitMs maxBatchSize now env s =
     waitForRequests_loop startTime maxWaitMs maxBatchSize now (take n env) s"
proof (induction n arbitrary: now env s)
  case 0
  then have "maxWaitMs \<le> now - startTime" by simp
  then show ?case by (simp add: wait_elapsed)
next
  case (Suc n)
  show ?case
  proof (cases "now - startTime < maxWaitMs")
    case False
    then show ?thesis by (simp add: wait_elapsed)
  next
    case True
    show ?thesis
    proof (cases "fst (getPendingRequests maxBatchSize s) = []")
      case False
      with True show ?thesis by (simp add: wait_found)
    next
      case e: True
      show ?thesis
      proof (cases env)
        case Nil then show ?thesis by simp
      next
        case (Cons sl env')
        obtain late ops where sl: "sl = (late, ops)" by (cases sl)
        from Suc.prems have "startTime + maxWaitMs - (now + 50 + int late) \<le> 50 * int n" by simp
        from Suc.IH[OF this, of env' "run ops (snd (getPendingRequests maxBatchSize s))"]
        show ?thesis using True e Cons sl by (simp add: wait_sleep)
      qed
    qed
  qed
qed


text \<open>From the first test of the condition to the \<open>k\<close>-th.\<close>

lemma wait_to_check:
  "\<forall>j<k. fst (nth_check maxBatchSize env j now s) - startTime < maxWaitMs \<and>
          fst (getPendingRequests maxBatchSize (snd (nth_check maxBatchSize env j now s))) = [] \<Longrightarrow>
   waitForRequests_loop startTime maxWaitMs maxBatchSize now env s =
     waitForRequests_loop startTime maxWaitMs maxBatchSize
       (fst (nth_check maxBatchSize env k now s)) (drop k env)
       (snd (nth_check maxBatchSize env k now s))"
proof (induction k arbitrary: now env s)
  case 0 show ?case by simp
next
  case (Suc k)
  from Suc.prems[rule_format, of 0] have t: "now - startTime < maxWaitMs"
    and e: "fst (getPendingRequests maxBatchSize s) = []" by simp_all
  show ?case
  proof (cases env)
    case Nil
    let ?s1 = "snd (getPendingRequests maxBatchSize s)"
    have "\<forall>j<k. fst (nth_check maxBatchSize [] j (now + 50) ?s1) - startTime < maxWaitMs \<and>
          fst (getPendingRequests maxBatchSize (snd (nth_check maxBatchSize [] j (now + 50) ?s1))) = []"
    proof (intro allI impI)
      fix j assume "j < k"
      then have "Suc j < Suc k" by simp
      from Suc.prems[rule_format, OF this] Nil
      show "fst (nth_check maxBatchSize [] j (now + 50) ?s1) - startTime < maxWaitMs \<and>
          fst (getPendingRequests maxBatchSize (snd (nth_check maxBatchSize [] j (now + 50) ?s1))) = []"
        by simp
    qed
    from Suc.IH[OF this] t e Nil show ?thesis by (simp add: wait_sleep_quiet)
  next
    case (Cons sl env')
    obtain late ops where sl: "sl = (late, ops)" by (cases sl)
    let ?s1 = "run ops (snd (getPendingRequests maxBatchSize s))"
    let ?n1 = "now + 50 + int late"
    have "\<forall>j<k. fst (nth_check maxBatchSize env' j ?n1 ?s1) - startTime < maxWaitMs \<and>
          fst (getPendingRequests maxBatchSize (snd (nth_check maxBatchSize env' j ?n1 ?s1))) = []"
    proof (intro allI impI)
      fix j assume "j < k"
      then have "Suc j < Suc k" by simp
      from Suc.prems[rule_format, OF this] Cons sl
      show "fst (nth_check maxBatchSize env' j ?n1 ?s1) - startTime < maxWaitMs \<and>
          fst (getPendingRequests maxBatchSize (snd (nth_check maxBatchSize env' j ?n1 ?s1))) = []"
        by simp
    qed
    from Suc.IH[OF this] t e Cons sl show ?thesis by (simp add: wait_sleep)
  qed
qed

lemma wait_first_batch:
  assumes "\<forall>j<k. fst (nth_check maxBatchSize env j now s) - now < maxWaitMs \<and>
            fst (getPendingRequests maxBatchSize (snd (nth_check maxBatchSize env j now s))) = []"
    and "fst (nth_check maxBatchSize env k now s) - now < maxWaitMs"
    and "fst (getPendingRequests maxBatchSize (snd (nth_check maxBatchSize env k now s))) \<noteq> []"
  shows "waitForRequests maxWaitMs maxBatchSize now env s =
           getPendingRequests maxBatchSize (snd (nth_check maxBatchSize env k now s))"
  unfolding waitForRequests_def wait_to_check[OF assms(1)]
  using assms(2,3) by (rule wait_found)

lemma wait_timed_out:
  assumes "\<forall>j<k. fst (nth_check maxBatchSize env j now s) - now < maxWaitMs \<and>
            fst (getPendingRequests maxBatchSize (snd (nth_check maxBatchSize env j now s))) = []"
    and "maxWaitMs \<le> fst (nth_check maxBatchSize env k now s) - now"
  shows "waitForRequests maxWaitMs maxBatchSize now env s =
           ([], snd (nth_check maxBatchSize env k now s))"
  unfolding waitForRequests_def wait_to_check[OF assms(1)]
  using assms(2) by (rule wait_elapsed)

lemma get_poll_v2_active:
  assumes "mcpServerActive c"
  shows "get_poll_v2 now q env c s =
     (Reply 200
        (poll_body (fst (if q_longPoll q \<noteq> JStr ''false''
                         then waitForRequests (pollMaxWait q) (pollMaxBatch q) now env s
                         else getPendingRequests (pollMaxBatch q) s))),
      c\<lparr>pluginConnected := True, lastPluginActivity := now, lastMCPActivity := now\<rparr>,
      snd (if q_longPoll q \<noteq> JStr ''false''
           then waitForRequests (pollMaxWait q) (pollMaxBatch q) now env s
           else getPendingRequests (pollMaxBatch q) s))"
proof -
  obtain rs s' where r: "(if q_longPoll q \<noteq> JStr ''false''
                         then waitForRequests (pollMaxWait q) (pollMaxBatch q) now env s
                         else getPendingRequests (pollMaxBatch q) s) = (rs, s')"
    by (cases "if q_longPoll q \<noteq> JStr ''false''
                         then waitForRequests (pollMaxWait q) (pollMaxBatch q) now env s
                         else getPendingRequests (pollMaxBatch q) s")
  have b: "poll_body [] = JObj [(''requests'', JArr []), (''mcpConnected'', JBool True),
                               (''pluginConnected'', JBool True), (''batchSize'', JNum 0)]"
    by (simp add: poll_body_def)
  show ?thesis
    unfolding r fst_conv snd_conv
    using assms r
    by (cases "rs = []")
       (simp_all add: get_poll_v2_def isMCPServerActive_v2_def trackMCPActivity_def Let_def
          poll_body_def)
qed

lemma nth_check_time: "now + 50 * int k \<le> fst (nth_check maxBatchSize env k now s)"
proof (induction k arbitrary: env now s)
  case 0 show ?case by simp
next
  case (Suc k)
  show ?case
  proof (cases env)
    case Nil
    from Suc.IH[of "now + 50" "[]" "snd (getPendingRequests maxBatchSize s)"] Nil
    show ?thesis by simp
  next
    case (Cons sl env')
    obtain late ops where sl: "sl = (late, ops)" by (cases sl)
    from Suc.IH[of "now + 50 + int late" env' "run ops (snd (getPendingRequests maxBatchSize s))"]
      Cons sl
    show ?thesis by simp
  qed
qed

lemma nth_check_punctual: "fst (nth_check maxBatchSize [] k now s) = now + 50 * int k"
  by (induction k arbitrary: now s) simp_all

text \<open>
  C8. \<open>GET /poll\<close> with an active dispatcher answers 200 with the batch that
  \<open>waitForRequests(bridge, maxWait, maxBatch)\<close> returns (or, for \<open>longPoll=false\<close>, the batch
  of one call of \<open>getPendingRequests(maxBatch)\<close>), where
  \<open>maxWait = min(parseInt(maxWait) || 5000, 30000)\<close> and
  \<open>maxBatch = min(parseInt(maxBatch) || 10, 50)\<close>. \<open>waitForRequests\<close> is total; it is its
  loop started at the current time. Each time the loop tests its condition: when the wait
  has elapsed it returns the empty list; otherwise it asks the bridge for a batch and
  returns it if it is not empty; otherwise it sleeps 50 ms (the timer may be late, and
  other operations may run meanwhile) and tests again. So the \<open>k\<close>-th test comes at least
  \<open>50 k\<close> ms after the start (exactly then when no timer is late); \<open>waitForRequests\<close>
  returns the batch of the first test that finds one within the wait, which has at most
  \<open>maxBatchSize\<close> requests, and the empty list at the first test that finds the wait
  elapsed. With \<open>n\<close> times 50 ms of wait left the loop sleeps at most \<open>n\<close> times, which for
  a poll is at most 600 times.
\<close>

theorem long_poll_bounded:
  "pollMaxWait q = min (orDefault (q_maxWait q) 5000) 30000 \<and> pollMaxWait q \<le> 30000 \<and>
   pollMaxBatch q = min (orDefault (q_maxBatch q) 10) 50 \<and> pollMaxBatch q \<le> 50 \<and>
   orDefault None d = d \<and> orDefault (Some 0) d = d \<and>
   (n \<noteq> 0 \<longrightarrow> orDefault (Some n) d = n) \<and>
   pollInterval = 50 \<and>
   (maxWaitMs \<le> now - startTime \<longrightarrow>
      waitForRequests_loop startTime maxWaitMs maxBatchSize now env s = ([], s)) \<and>
   (now - startTime < maxWaitMs \<and> fst (getPendingRequests maxBatchSize s) \<noteq> [] \<longrightarrow>
      waitForRequests_loop startTime maxWaitMs maxBatchSize now env s =
        getPendingRequests maxBatchSize s) \<and>
   (now - startTime < maxWaitMs \<and> fst (getPendingRequests maxBatchSize s) = [] \<longrightarrow>
      waitForRequests_loop startTime maxWaitMs maxBatchSize now ((late, ops) # env) s =
        waitForRequests_loop startTime maxWaitMs maxBatchSize (now + 50 + int late) env
          (run ops (snd (getPendingRequests maxBatchSize s))) \<and>
      waitForRequests_loop startTime maxWaitMs maxBatchSize now [] s =
        waitForRequests_loop startTime maxWaitMs maxBatchSize (now + 50) []
          (snd (getPendingRequests maxBatchSize s))) \<and>
   (fst (waitForRequests_loop startTime maxWaitMs maxBatchSize now env s) = [] \<or>
    int (length (fst (waitForRequests_loop startTime maxWaitMs maxBatchSize now env s)))
      \<le> maxBatchSize) \<and>
   (startTime + maxWaitMs - now \<le> 50 * int k \<longrightarrow>
      waitForRequests_loop startTime maxWaitMs maxBatchSize now env s =
        waitForRequests_loop startTime maxWaitMs maxBatchSize now (take k env) s) \<and>
   waitForRequests (pollMaxWait q) (pollMaxBatch q) now env s =
     waitForRequests (pollMaxWait q) (pollMaxBatch q) now (take 600 env) s \<and>
   waitForRequests maxWaitMs maxBatchSize now env s =
     waitForRequests_loop now maxWaitMs maxBatchSize now env s \<and>
   (maxWaitMs \<le> 0 \<longrightarrow> waitForRequests maxWaitMs maxBatchSize now env s = ([], s)) \<and>
   now + 50 * int m \<le> fst (nth_check maxBatchSize env m now s) \<and>
   fst (nth_check maxBatchSize [] m now s) = now + 50 * int m \<and>
   ((\<forall>j<m. fst (nth_check maxBatchSize env j now s) - now < maxWaitMs \<and>
            fst (getPendingRequests maxBatchSize (snd (nth_check maxBatchSize env j now s))) = []) \<and>
    fst (nth_check maxBatchSize env m now s) - now < maxWaitMs \<and>
    fst (getPendingRequests maxBatchSize (snd (nth_check maxBatchSize env m now s))) \<noteq> [] \<longrightarrow>
      waitForRequests maxWaitMs maxBatchSize now env s =
        getPendingRequests maxBatchSize (snd (nth_check maxBatchSize env m now s))) \<and>
   ((\<forall>j<m. fst (nth_check maxBatchSize env j now s) - now < maxWaitMs \<and>
            fst (getPendingRequests maxBatchSize (snd (nth_check maxBatchSize env j now s))) = []) \<and>
    maxWaitMs \<le> fst (nth_check maxBatchSize env m now s) - now \<longrightarrow>
      waitForRequests maxWaitMs maxBatchSize now env s =
        ([], snd (nth_check maxBatchSize env m now s))) \<and>
   (fst (waitForRequests maxWaitMs maxBatchSize now env s) = [] \<or>
    int (length (fst (waitForRequests maxWaitMs maxBatchSize now env s))) \<le> maxBatchSize) \<and>
   (mcpServerActive c \<longrightarrow>
      get_poll_v2 now q env c s =
        (Reply 200
           (poll_body (fst (if q_longPoll q \<noteq> JStr ''false''
                            then waitForRequests (pollMaxWait q) (pollMaxBatch q) now env s
                            else getPendingRequests (pollMaxBatch q) s))),
         c\<lparr>pluginConnected := True, lastPluginActivity := now, lastMCPActivity := now\<rparr>,
         snd (if q_longPoll q \<noteq> JStr ''false''
              then waitForRequests (pollMaxWait q) (pollMaxBatch q) now env s
              else getPendingRequests (pollMaxBatch q) s)))"
proof -
  have c: "pollMaxWait q \<le> 30000" "pollMaxBatch q \<le> 50"
    by (simp_all add: pollMaxWait_def pollMaxBatch_def)
  have c': "pollMaxWait q = min (orDefault (q_maxWait q) 5000) 30000"
    "pollMaxBatch q = min (orDefault (q_maxBatch q) 10) 50"
    by (simp_all add: pollMaxWait_def pollMaxBatch_def)
  have o: "orDefault None d = d" "orDefault (Some 0) d = d" "n \<noteq> 0 \<longrightarrow> orDefault (Some n) d = n"
    by (simp_all add: orDefault_def)
  have pi: "pollInterval = 50" by (simp add: pollInterval_def)
  have "now + pollMaxWait q - now \<le> 50 * int 600" using c(1) by simp
  from wait_bounded[OF this, of "pollMaxBatch q" env s]
  have w: "waitForRequests (pollMaxWait q) (pollMaxBatch q) now env s =
     waitForRequests (pollMaxWait q) (pollMaxBatch q) now (take 600 env) s"
    by (simp add: waitForRequests_def)
  have l1: "maxWaitMs \<le> now - startTime \<longrightarrow>
      waitForRequests_loop startTime maxWaitMs maxBatchSize now env s = ([], s)"
    by (simp add: wait_elapsed)
  have l2: "now - startTime < maxWaitMs \<and> fst (getPendingRequests maxBatchSize s) \<noteq> [] \<longrightarrow>
      waitForRequests_loop startTime maxWaitMs maxBatchSize now env s =
        getPendingRequests maxBatchSize s"
    by (simp add: wait_found)
  have l3: "now - startTime < maxWaitMs \<and> fst (getPendingRequests maxBatchSize s) = [] \<longrightarrow>
      waitForRequests_loop startTime maxWaitMs maxBatchSize now ((late, ops) # env) s =
        waitForRequests_loop startTime maxWaitMs maxBatchSize (now + 50 + int late) env
          (run ops (snd (getPendingRequests maxBatchSize s))) \<and>
      waitForRequests_loop startTime maxWaitMs maxBatchSize now [] s =
        waitForRequests_loop startTime maxWaitMs maxBatchSize (now + 50) []
          (snd (getPendingRequests maxBatchSize s))"
    by (simp add: wait_sleep wait_sleep_quiet)
  note l4 = wait_result[of startTime maxWaitMs maxBatchSize now env s]
  have l5: "startTime + maxWaitMs - now \<le> 50 * int k \<longrightarrow>
      waitForRequests_loop startTime maxWaitMs maxBatchSize now env s =
        waitForRequests_loop startTime maxWaitMs maxBatchSize now (take k env) s"
    using wait_bounded[of startTime maxWaitMs now k maxBatchSize env s] by simp
  have n1: "waitForRequests maxWaitMs maxBatchSize now env s =
     waitForRequests_loop now maxWaitMs maxBatchSize now env s"
    by (simp add: waitForRequests_def)
  have n2: "maxWaitMs \<le> 0 \<longrightarrow> waitForRequests maxWaitMs maxBatchSize now env s = ([], s)"
    by (simp add: waitForRequests_def wait_elapsed)
  note n3 = nth_check_time[of now m maxBatchSize env s]
  note n4 = nth_check_punctual[of maxBatchSize m now s]
  have n5: "(\<forall>j<m. fst (nth_check maxBatchSize env j now s) - now < maxWaitMs \<and>
            fst (getPendingRequests maxBatchSize (snd (nth_check maxBatchSize env j now s))) = []) \<and>
    fst (nth_check maxBatchSize env m now s) - now < maxWaitMs \<and>
    fst (getPendingRequests maxBatchSize (snd (nth_check maxBatchSize env m now s))) \<noteq> [] \<longrightarrow>
      waitForRequests maxWaitMs maxBatchSize now env s =
        getPendingRequests maxBatchSize (snd (nth_check maxBatchSize env m now s))"
    using wait_first_batch[of m maxBatchSize env now s maxWaitMs] by blast
  have n6: "(\<forall>j<m. fst (nth_check maxBatchSize env j now s) - now < maxWaitMs \<and>
            fst (getPendingRequests maxBatchSize (snd (nth_check maxBatchSize env j now s))) = []) \<and>
    maxWaitMs \<le> fst (nth_check maxBatchSize env m now s) - now \<longrightarrow>
      waitForRequests maxWaitMs maxBatchSize now env s =
        ([], snd (nth_check maxBatchSize env m now s))"
    using wait_timed_out[of m maxBatchSize env now s maxWaitMs] by blast
  have n7: "fst (waitForRequests maxWaitMs maxBatchSize now env s) = [] \<or>
    int (length (fst (waitForRequests maxWaitMs maxBatchSize now env s))) \<le> maxBatchSize"
    unfolding waitForRequests_def by (rule wait_result)
  have n8: "mcpServerActive c \<longrightarrow>
      get_poll_v2 now q env c s =
        (Reply 200
           (poll_body (fst (if q_longPoll q \<noteq> JStr ''false''
                            then waitForRequests (pollMaxWait q) (pollMaxBatch q) now env s
                            else getPendingRequests (pollMaxBatch q) s))),
         c\<lparr>pluginConnected := True, lastPluginActivity := now, lastMCPActivity := now\<rparr>,
         snd (if q_longPoll q \<noteq> JStr ''false''
              then waitForRequests (pollMaxWait q) (pollMaxBatch q) now env s
              else getPendingRequests (pollMaxBatch q) s))"
    using get_poll_v2_active[of c now q env s] by blast
  show ?thesis
    apply (intro conjI)
                        apply (rule c'(1))
                        apply (rule c(1))
                        apply (rule c'(2))
                        apply (rule c(2))
                        apply (rule o(1))
                       apply (rule o(2))
                      apply (rule o(3))
                     apply (rule pi)
                    apply (rule l1)
                   apply (rule l2)
                  apply (rule l3)
                 apply (rule l4)
                apply (rule l5)
               apply (rule w)
              apply (rule n1)
             apply (rule n2)
            apply (rule n3)
           apply (rule n4)
          apply (rule n5)
         apply (rule n6)
        apply (rule n7)
       apply (rule n8)
    done
qed

theorem long_poll_bounded_witness:
  "mcpServerActive conn_active \<and>
   pollMaxWait query_example = 120 \<and> pollMaxBatch query_example = 10 \<and>
   pollMaxWait \<lparr>q_longPoll = JStr ''true'', q_maxWait = Some 60000, q_maxBatch = Some 0\<rparr> = 30000 \<and>
   pollMaxBatch \<lparr>q_longPoll = JStr ''true'', q_maxWait = Some 60000, q_maxBatch = Some 0\<rparr> = 10 \<and>
   orDefault (Some 60000) 5000 = 60000 \<and>
   nth_check 10 env_example 0 0 newBridgeService = (0, newBridgeService) \<and>
   fst (getPendingRequests 10 newBridgeService) = [] \<and>
   fst (nth_check 10 env_example 1 0 newBridgeService) = 50 \<and>
   fst (getPendingRequests 10 (snd (nth_check 10 env_example 1 0 newBridgeService))) = [] \<and>
   fst (nth_check 10 env_example 2 0 newBridgeService) = 105 \<and>
   fst (getPendingRequests 10 (snd (nth_check 10 env_example 2 0 newBridgeService))) =
     [(''w1'', ''/api/late'', JNull)] \<and>
   waitForRequests 120 10 0 env_example newBridgeService =
     getPendingRequests 10 (snd (nth_check 10 env_example 2 0 newBridgeService)) \<and>
   fst (get_poll_v2 0 query_example env_example conn_active newBridgeService) =
     Reply 200 (poll_body [(''w1'', ''/api/late'', JNull)]) \<and>
   fst (nth_check 10 [] 3 0 newBridgeService) = 150 \<and>
   waitForRequests 120 10 0 [] newBridgeService = ([], newBridgeService) \<and>
   waitForRequests_loop 0 120 10 120 env_example newBridgeService = ([], newBridgeService) \<and>
   waitForRequests_loop 0 120 10 0 env_example newBridgeService =
     waitForRequests_loop 0 120 10 50 [(5, [Send ''w1'' ''/api/late'' JNull 60])]
       newBridgeService"
proof -
  let ?q = "\<lparr>q_longPoll = JStr ''true'', q_maxWait = Some 60000, q_maxBatch = Some 0\<rparr>"
  let ?rest = "[(5::nat, [Send ''w1'' ''/api/late'' JNull 60])]"
  have act: "mcpServerActive conn_active"
    by (simp add: conn_active_def setMCPServerActive_def)
  have qe: "pollMaxWait query_example = 120" "pollMaxBatch query_example = 10"
    "q_longPoll query_example \<noteq> JStr ''false''"
    by (simp_all add: query_example_def pollMaxWait_def pollMaxBatch_def orDefault_def)
  have k0: "nth_check 10 env_example 0 0 newBridgeService = (0, newBridgeService)" by simp
  have g: "getPendingRequests 10 newBridgeService = ([], newBridgeService)" by code_simp
  have k1: "fst (nth_check 10 env_example 1 0 newBridgeService) = 50" by code_simp
  have b1: "fst (getPendingRequests 10 (snd (nth_check 10 env_example 1 0 newBridgeService))) = []"
    by code_simp
  have k2: "fst (nth_check 10 env_example 2 0 newBridgeService) = 105" by code_simp
  have b2: "fst (getPendingRequests 10 (snd (nth_check 10 env_example 2 0 newBridgeService))) =
     [(''w1'', ''/api/late'', JNull)]" by code_simp
  have k3: "fst (nth_check 10 [] 3 0 newBridgeService) = 150" by code_simp
  have s3: "snd (nth_check 10 [] 3 0 newBridgeService) = newBridgeService" by code_simp
  have e0: "nth_check 10 [] 0 0 newBridgeService = (0, newBridgeService)" by simp
  have e1: "fst (nth_check 10 [] (Suc 0) 0 newBridgeService) = 50"
    "fst (getPendingRequests 10 (snd (nth_check 10 [] (Suc 0) 0 newBridgeService))) = []"
    by code_simp+
  have e2: "fst (nth_check 10 [] 2 0 newBridgeService) = 100"
    "fst (getPendingRequests 10 (snd (nth_check 10 [] 2 0 newBridgeService))) = []"
    by code_simp+
  have k1': "fst (nth_check 10 env_example (Suc 0) 0 newBridgeService) = 50"
    "fst (getPendingRequests 10 (snd (nth_check 10 env_example (Suc 0) 0 newBridgeService))) = []"
    using k1 b1 by simp_all
  have all2: "\<forall>j<2. fst (nth_check 10 env_example j 0 newBridgeService) - 0 < 120 \<and>
      fst (getPendingRequests 10 (snd (nth_check 10 env_example j 0 newBridgeService))) = []"
    using k0 g k1' by (auto simp: less_2_cases_iff)
  have all3: "\<forall>j<3. fst (nth_check 10 [] j 0 newBridgeService) - 0 < 120 \<and>
      fst (getPendingRequests 10 (snd (nth_check 10 [] j 0 newBridgeService))) = []"
  proof (intro allI impI)
    fix j :: nat assume "j < 3"
    then consider "j = 0" | "j = Suc 0" | "j = 2" by linarith
    then show "fst (nth_check 10 [] j 0 newBridgeService) - 0 < 120 \<and>
      fst (getPendingRequests 10 (snd (nth_check 10 [] j 0 newBridgeService))) = []"
      using e0 g e1 e2 by cases simp_all
  qed
  note t = long_poll_bounded[where q = ?q and d = 5000 and n = 60000 and maxWaitMs = 120
      and now = 120 and startTime = 0 and maxBatchSize = 10 and env = env_example
      and s = newBridgeService and late = 0 and ops = "[]" and k = 3 and m = 0 and c = conn_active]
  note u = long_poll_bounded[where q = query_example and d = 5000 and n = 60000 and maxWaitMs = 120
      and now = 0 and startTime = 0 and maxBatchSize = 10 and env = ?rest
      and s = newBridgeService and late = 0 and ops = "[]" and k = 3 and m = 0 and c = conn_active]
  note v = long_poll_bounded[where q = query_example and d = 5000 and n = 60000 and maxWaitMs = 120
      and now = 0 and startTime = 0 and maxBatchSize = 10 and env = env_example
      and s = newBridgeService and late = 0 and ops = "[]" and k = 3 and m = 2 and c = conn_active]
  note x = long_poll_bounded[where q = query_example and d = 5000 and n = 60000 and maxWaitMs = 120
      and now = 0 and startTime = 0 and maxBatchSize = 10 and env = "[]"
      and s = newBridgeService and late = 0 and ops = "[]" and k = 3 and m = 3 and c = conn_active]
  have p: "pollMaxWait ?q = 30000" "pollMaxBatch ?q = 10" "orDefault (Some 60000) 5000 = 60000"
    using t by (simp_all add: orDefault_def)
  have a: "waitForRequests_loop 0 120 10 120 env_example newBridgeService = ([], newBridgeService)"
    using t by simp
  have b: "waitForRequests_loop 0 120 10 0 env_example newBridgeService =
     waitForRequests_loop 0 120 10 50 ?rest newBridgeService"
    unfolding env_example_def using u g by simp
  have f0: "(\<forall>j<2. fst (nth_check 10 env_example j 0 newBridgeService) - 0 < 120 \<and>
            fst (getPendingRequests 10 (snd (nth_check 10 env_example j 0 newBridgeService))) = []) \<and>
    fst (nth_check 10 env_example 2 0 newBridgeService) - 0 < 120 \<and>
    fst (getPendingRequests 10 (snd (nth_check 10 env_example 2 0 newBridgeService))) \<noteq> [] \<longrightarrow>
      waitForRequests 120 10 0 env_example newBridgeService =
        getPendingRequests 10 (snd (nth_check 10 env_example 2 0 newBridgeService))"
    using v by (elim conjE)
  have f1: "(\<forall>j<2. fst (nth_check 10 env_example j 0 newBridgeService) - 0 < 120 \<and>
            fst (getPendingRequests 10 (snd (nth_check 10 env_example j 0 newBridgeService))) = []) \<and>
    fst (nth_check 10 env_example 2 0 newBridgeService) - 0 < 120 \<and>
    fst (getPendingRequests 10 (snd (nth_check 10 env_example 2 0 newBridgeService))) \<noteq> []"
    using all2 k2 b2 by simp
  note f = f0[THEN mp, OF f1]
  have to0: "(\<forall>j<3. fst (nth_check 10 [] j 0 newBridgeService) - 0 < 120 \<and>
            fst (getPendingRequests 10 (snd (nth_check 10 [] j 0 newBridgeService))) = []) \<and>
    120 \<le> fst (nth_check 10 [] 3 0 newBridgeService) - 0 \<longrightarrow>
      waitForRequests 120 10 0 [] newBridgeService =
        ([], snd (nth_check 10 [] 3 0 newBridgeService))"
    using x by (elim conjE)
  have to1: "(\<forall>j<3. fst (nth_check 10 [] j 0 newBridgeService) - 0 < 120 \<and>
            fst (getPendingRequests 10 (snd (nth_check 10 [] j 0 newBridgeService))) = []) \<and>
    120 \<le> fst (nth_check 10 [] 3 0 newBridgeService) - 0"
    using all3 k3 by simp
  have to: "waitForRequests 120 10 0 [] newBridgeService = ([], newBridgeService)"
    using to0[THEN mp, OF to1] s3 by simp
  have h0: "mcpServerActive conn_active \<longrightarrow>
      get_poll_v2 0 query_example env_example conn_active newBridgeService =
        (Reply 200
           (poll_body (fst (if q_longPoll query_example \<noteq> JStr ''false''
                            then waitForRequests (pollMaxWait query_example) (pollMaxBatch query_example) 0 env_example newBridgeService
                            else getPendingRequests (pollMaxBatch query_example) newBridgeService))),
         conn_active\<lparr>pluginConnected := True, lastPluginActivity := 0, lastMCPActivity := 0\<rparr>,
         snd (if q_longPoll query_example \<noteq> JStr ''false''
              then waitForRequests (pollMaxWait query_example) (pollMaxBatch query_example) 0 env_example newBridgeService
              else getPendingRequests (pollMaxBatch query_example) newBridgeService))"
    using v by (elim conjE)
  have h: "fst (get_poll_v2 0 query_example env_example conn_active newBridgeService) =
     Reply 200 (poll_body [(''w1'', ''/api/late'', JNull)])"
    unfolding h0[THEN mp, OF act] using qe f b2 by simp
  show ?thesis
    apply (intro conjI)
                     apply (rule act)
                    apply (rule qe(1))
                   apply (rule qe(2))
                  apply (rule p(1))
                 apply (rule p(2))
                apply (rule p(3))
               apply (rule k0)
              apply (simp add: g)
             apply (rule k1)
            apply (rule b1)
           apply (rule k2)
          apply (rule b2)
         apply (rule f)
        apply (rule h)
       apply (rule k3)
      apply (rule to)
     apply (rule a)
    apply (rule b)
    done
qed


subsection \<open>FIFO retrieval, in general\<close>

lemma polled_ids:
  "consistent s \<Longrightarrow>
   map (\<lambda>e. fst (polled_of (snd e))) (pendingRequests s) = requestQueue s"
proof -
  assume c: "consistent s"
  have "fst (polled_of (snd e)) = fst e" if "e \<in> set (pendingRequests s)" for e
    using consistentD(3)[OF c that] by (simp add: entry_ok_def polled_of_def)
  then have "map (\<lambda>e. fst (polled_of (snd e))) (pendingRequests s) = map fst (pendingRequests s)"
    by (intro map_cong) simp_all
  with consistentD(1)[OF c] show ?thesis by (simp add: queue_inv_def)
qed

text \<open>
  C1. In a consistent state, after requests with distinct identifiers that are not pending
  are registered in some order, \<open>getPendingRequests(maxCount)\<close> returns the first
  \<open>maxCount\<close> pending requests, oldest first (the entries the map had, then the new ones in
  the order of registration), \<open>getPendingRequest\<close> returns the oldest, and neither changes
  the state. For a \<open>maxCount\<close> that is not negative the batch has at most \<open>maxCount\<close>
  entries; for a negative one it is empty. After any further operations (settlements,
  timeouts, sweeps, clearing, registrations of identifiers that are not pending) the two
  retrievals return the first pending requests of the queue as it then is, and that queue
  is a subsequence of the registration order: a request that was settled or timed out is
  skipped, and the others are never reordered.
\<close>

theorem fifo_retrieval:
  assumes "consistent s" and "distinct (map fst reqs)"
    and "\<forall>r\<in>set reqs. \<not> hasPendingRequest (JStr (fst r)) s"
  shows "getPendingRequests maxCount (sendAll reqs s) =
           (take (nat maxCount)
              (map (\<lambda>e. polled_of (snd e)) (pendingRequests s) @
               map (\<lambda>r. (fst r, fst (snd r), fst (snd (snd r)))) reqs),
            sendAll reqs s) \<and>
         getPendingRequest (sendAll reqs s) =
           (case map (\<lambda>e. polled_of (snd e)) (pendingRequests s) @
                 map (\<lambda>r. (fst r, fst (snd r), fst (snd (snd r)))) reqs of
              [] \<Rightarrow> None | r # _ \<Rightarrow> Some r,
            sendAll reqs s) \<and>
         (0 \<le> maxCount \<longrightarrow>
            int (length (fst (getPendingRequests maxCount (sendAll reqs s)))) \<le> maxCount) \<and>
         (fresh_run ops s \<longrightarrow>
            getPendingRequests maxCount (run ops s) =
              (take (nat maxCount) (map (\<lambda>e. polled_of (snd e)) (pendingRequests (run ops s))),
               run ops s) \<and>
            getPendingRequest (run ops s) =
              (case pendingRequests (run ops s) of [] \<Rightarrow> None
               | e # _ \<Rightarrow> Some (polled_of (snd e)), run ops s) \<and>
            map fst (fst (getPendingRequests maxCount (run ops s))) =
              take (nat maxCount) (requestQueue (run ops s)) \<and>
            subseq (requestQueue (run ops s)) (requestQueue s @ sent_ids ops))"
proof -
  let ?s' = "sendAll reqs s"
  let ?pending = "map (\<lambda>e. polled_of (snd e)) (pendingRequests s) @
               map (\<lambda>r. (fst r, fst (snd r), fst (snd (snd r)))) reqs"
  note q = consistentD(1)[OF assms(1)]
  from sendAll_pending[OF q assms(2,3)] have inv: "queue_inv ?s'"
    and p: "map (\<lambda>e. polled_of (snd e)) (pendingRequests ?s') = ?pending" by simp_all
  have a: "getPendingRequests maxCount ?s' = (take (nat maxCount) ?pending, ?s')"
    using getPendingRequests_inv[OF inv, of maxCount] p by simp
  have "(case pendingRequests ?s' of [] \<Rightarrow> None | e # _ \<Rightarrow> Some (polled_of (snd e))) =
        (case map (\<lambda>e. polled_of (snd e)) (pendingRequests ?s') of [] \<Rightarrow> None | r # _ \<Rightarrow> Some r)"
    by (cases "pendingRequests ?s'") simp_all
  then have b: "getPendingRequest ?s' = (case ?pending of [] \<Rightarrow> None | r # _ \<Rightarrow> Some r, ?s')"
    using getPendingRequest_inv[OF inv] p by simp
  have "length (take (nat maxCount) ?pending) \<le> nat maxCount"
    by (simp only: length_take min.cobounded2)
  then have "length (fst (getPendingRequests maxCount ?s')) \<le> nat maxCount"
    by (simp only: a fst_conv)
  then have c: "0 \<le> maxCount \<longrightarrow> int (length (fst (getPendingRequests maxCount ?s'))) \<le> maxCount"
    by linarith
  have d: "getPendingRequests maxCount (run ops s) =
              (take (nat maxCount) (map (\<lambda>e. polled_of (snd e)) (pendingRequests (run ops s))),
               run ops s) \<and>
            getPendingRequest (run ops s) =
              (case pendingRequests (run ops s) of [] \<Rightarrow> None
               | e # _ \<Rightarrow> Some (polled_of (snd e)), run ops s) \<and>
            map fst (fst (getPendingRequests maxCount (run ops s))) =
              take (nat maxCount) (requestQueue (run ops s)) \<and>
            subseq (requestQueue (run ops s)) (requestQueue s @ sent_ids ops)"
    if f: "fresh_run ops s"
  proof -
    have c': "consistent (run ops s)" using assms(1) f by (rule consistent_run)
    note q' = consistentD(1)[OF c']
    have 1: "getPendingRequests maxCount (run ops s) =
              (take (nat maxCount) (map (\<lambda>e. polled_of (snd e)) (pendingRequests (run ops s))),
               run ops s)" by (rule getPendingRequests_inv[OF q'])
    have 2: "getPendingRequest (run ops s) =
              (case pendingRequests (run ops s) of [] \<Rightarrow> None
               | e # _ \<Rightarrow> Some (polled_of (snd e)), run ops s)"
      by (rule getPendingRequest_inv[OF q'])
    have 3: "map fst (fst (getPendingRequests maxCount (run ops s))) =
              take (nat maxCount) (requestQueue (run ops s))"
      using polled_ids[OF c'] by (simp add: 1 take_map[symmetric] comp_def)
    from 1 2 3 queue_order_run[of ops s] show ?thesis by simp
  qed
  from a b c d show ?thesis by blast
qed

theorem fifo_retrieval_witness:
  "consistent newBridgeService \<and> distinct (map fst reqs_example) \<and>
   list_all (\<lambda>r. \<not> hasPendingRequest (JStr (fst r)) newBridgeService) reqs_example \<and>
   fresh_run ops_example newBridgeService \<and>
   fst (getPendingRequests 2 (sendAll reqs_example newBridgeService)) =
     [(''t1'', ''/api/test1'', JNum 1), (''t2'', ''/api/test2'', JNum 2)] \<and>
   fst (getPendingRequest (sendAll reqs_example newBridgeService)) =
     Some (''t1'', ''/api/test1'', JNum 1) \<and>
   int (length (fst (getPendingRequests 2 (sendAll reqs_example newBridgeService)))) \<le> 2 \<and>
   map fst (fst (getPendingRequests 2 (run ops_example newBridgeService))) =
     take 2 (requestQueue (run ops_example newBridgeService)) \<and>
   subseq (requestQueue (run ops_example newBridgeService))
     (requestQueue newBridgeService @ sent_ids ops_example) \<and>
   fst (getPendingRequests 2 (run ops_example newBridgeService)) = [(''d'', ''/api/z'', JNull)]"
proof -
  have h1: "consistent newBridgeService" by (rule consistent_new)
  have h2: "distinct (map fst reqs_example)" by (simp add: reqs_example_def)
  have h3': "list_all (\<lambda>r. \<not> hasPendingRequest (JStr (fst r)) newBridgeService) reqs_example"
    by code_simp
  then have h3: "\<forall>r\<in>set reqs_example. \<not> hasPendingRequest (JStr (fst r)) newBridgeService"
    by (simp add: list_all_iff)
  have h4: "fresh_run ops_example newBridgeService" by code_simp
  have e: "pendingRequests newBridgeService = []" by (simp add: newBridgeService_def)
  have v: "fst (getPendingRequests 2 (run ops_example newBridgeService)) = [(''d'', ''/api/z'', JNull)]"
    by code_simp
  note t = fifo_retrieval[OF h1 h2 h3, of 2 ops_example]
  have a: "fst (getPendingRequests 2 (sendAll reqs_example newBridgeService)) =
     [(''t1'', ''/api/test1'', JNum 1), (''t2'', ''/api/test2'', JNum 2)]"
    using t by (simp add: e reqs_example_def)
  have b: "fst (getPendingRequest (sendAll reqs_example newBridgeService)) =
     Some (''t1'', ''/api/test1'', JNum 1)"
    using t by (simp add: e reqs_example_def)
  have c: "int (length (fst (getPendingRequests 2 (sendAll reqs_example newBridgeService)))) \<le> 2"
    using a by simp
  note g = t[THEN conjunct2, THEN conjunct2, THEN conjunct2, THEN mp, OF h4]
  have d: "map fst (fst (getPendingRequests 2 (run ops_example newBridgeService))) =
     take 2 (requestQueue (run ops_example newBridgeService))"
    using g[THEN conjunct2, THEN conjunct2, THEN conjunct1] by simp
  have f: "subseq (requestQueue (run ops_example newBridgeService))
     (requestQueue newBridgeService @ sent_ids ops_example)"
    by (rule g[THEN conjunct2, THEN conjunct2, THEN conjunct2])
  show ?thesis
    apply (intro conjI)
             apply (rule h1)
            apply (rule h2)
           apply (rule h3')
          apply (rule h4)
         apply (rule a)
        apply (rule b)
       apply (rule c)
      apply (rule d)
     apply (rule f)
    apply (rule v)
    done
qed

end
